theory Spec2Isabelle
  imports Complex_Main "HOL-Library.Multiset"
begin

section \<open>Values and errors\<close>

text \<open>
  The notebook \<^verbatim>\<open>ParallelMCOptions-cluster.ipynb\<close> prices a grid of options on an IPython
  cluster. Exceptions are values of the type \<open>error\<close>: the Python exceptions the notebook's
  own code can raise, and the three error kinds of the scheduling protocol
  (\<open>SubmissionError\<close>, \<open>WorkerExecutionError\<close> wrapping the remote cause, which is what
  \<^verbatim>\<open>AsyncResult.get\<close> re-raises, and \<open>IncompleteGridError\<close>).
\<close>

datatype error =
    ZeroDivisionError
  | ValueError
  | OverflowError
  | MemoryError
  | IndexError
  | NameError
  | SubmissionError
  | WorkerExecutionError error
  | IncompleteGridError

section \<open>The pricing function\<close>

text \<open>
  \<^verbatim>\<open>price_option\<close> computes with Python floats and NumPy \<^verbatim>\<open>float64\<close> arrays. A float is a
  finite number, an infinity or NaN. Finite results are kept exact (rounding inside the
  range is left out); what is kept is the range of the format: a result at or beyond the
  overflow threshold becomes an infinity, a result at or below half the least subnormal
  becomes zero. The sign of zero is left out.
\<close>

datatype float64 = Fin real | PInf | NInf | NaN

definition overflow_threshold :: real where
  "overflow_threshold = 2 ^ 1024 - 2 ^ 970"

definition underflow_threshold :: real where
  "underflow_threshold = 1 / 2 ^ 1075"

definition rnd :: "real \<Rightarrow> float64" where
  "rnd x =
     (if overflow_threshold \<le> x then PInf
      else if x \<le> - overflow_threshold then NInf
      else if \<bar>x\<bar> \<le> underflow_threshold then Fin 0
      else Fin x)"

text \<open>The IEEE operations NumPy applies element by element; none of them raises.\<close>

fun fl_neg :: "float64 \<Rightarrow> float64" where
  "fl_neg (Fin a) = Fin (- a)"
| "fl_neg PInf = NInf"
| "fl_neg NInf = PInf"
| "fl_neg NaN = NaN"

fun fl_add :: "float64 \<Rightarrow> float64 \<Rightarrow> float64" where
  "fl_add NaN y = NaN"
| "fl_add x NaN = NaN"
| "fl_add (Fin a) (Fin b) = rnd (a + b)"
| "fl_add PInf NInf = NaN"
| "fl_add NInf PInf = NaN"
| "fl_add PInf y = PInf"
| "fl_add x PInf = PInf"
| "fl_add NInf y = NInf"
| "fl_add x NInf = NInf"

definition fl_sub :: "float64 \<Rightarrow> float64 \<Rightarrow> float64" where
  "fl_sub x y = fl_add x (fl_neg y)"

fun fl_mul :: "float64 \<Rightarrow> float64 \<Rightarrow> float64" where
  "fl_mul NaN y = NaN"
| "fl_mul x NaN = NaN"
| "fl_mul (Fin a) (Fin b) = rnd (a * b)"
| "fl_mul (Fin a) PInf = (if a = 0 then NaN else if 0 < a then PInf else NInf)"
| "fl_mul (Fin a) NInf = (if a = 0 then NaN else if 0 < a then NInf else PInf)"
| "fl_mul PInf (Fin b) = (if b = 0 then NaN else if 0 < b then PInf else NInf)"
| "fl_mul NInf (Fin b) = (if b = 0 then NaN else if 0 < b then NInf else PInf)"
| "fl_mul PInf PInf = PInf"
| "fl_mul PInf NInf = NInf"
| "fl_mul NInf PInf = NInf"
| "fl_mul NInf NInf = PInf"

text \<open>Division by a count (\<^verbatim>\<open>stock_price_sum/days\<close>, the division inside \<^verbatim>\<open>np.mean\<close>).\<close>

fun fl_div_count :: "float64 \<Rightarrow> nat \<Rightarrow> float64" where
  "fl_div_count NaN n = NaN"
| "fl_div_count PInf n = PInf"
| "fl_div_count NInf n = NInf"
| "fl_div_count (Fin a) n =
     (if n = 0 then (if a = 0 then NaN else if 0 < a then PInf else NInf)
      else rnd (a / real n))"

fun np_exp :: "float64 \<Rightarrow> float64" where
  "np_exp (Fin a) = rnd (exp a)"
| "np_exp PInf = PInf"
| "np_exp NInf = Fin 0"
| "np_exp NaN = NaN"

text \<open>\<^verbatim>\<open>np.maximum\<close> propagates NaN.\<close>

fun np_maximum :: "float64 \<Rightarrow> float64 \<Rightarrow> float64" where
  "np_maximum NaN y = NaN"
| "np_maximum x NaN = NaN"
| "np_maximum PInf y = PInf"
| "np_maximum x PInf = PInf"
| "np_maximum NInf y = y"
| "np_maximum x NInf = x"
| "np_maximum (Fin a) (Fin b) = Fin (max a b)"

text \<open>
  \<^verbatim>\<open>np.mean\<close>: the sum divided by the length; of an empty array it is \<open>0.0/0\<close>, NaN (NumPy
  warns and returns it).
\<close>

definition np_mean :: "float64 list \<Rightarrow> float64" where
  "np_mean xs = fl_div_count (fold (\<lambda>x s. fl_add s x) xs (Fin 0)) (length xs)"

text \<open>
  \<^verbatim>\<open>np.ones(n)\<close> and \<^verbatim>\<open>np.zeros(n)\<close> allocate an array of \<open>n\<close> items. They raise ValueError
  for a negative length and for a length the index type of the platform cannot hold
  (\<^verbatim>\<open>np.ones(2**63)\<close>), and MemoryError for a length the memory cannot hold
  (\<^verbatim>\<open>np.ones(10**13)\<close>). Where the limits lie depends on the machine the function runs on:
  \<open>max_items\<close> is the longest \<^verbatim>\<open>float64\<close> array the index type allows, \<open>mem_items\<close> the
  longest one the memory holds. Memory is a capacity: an array within it can be allocated
  as often as the function needs, so the arrays NumPy builds from arrays of that length
  are allocated as well.

  The notebook runs under Python 2.7 (its cells use the \<^verbatim>\<open>print\<close> statement, its traceback
  names \<^verbatim>\<open>python2.7\<close>), where \<^verbatim>\<open>range(days)\<close> builds the list of the indices before the loop
  starts: it raises OverflowError for a length beyond the machine integers
  (\<^verbatim>\<open>range(2**63)\<close>) and MemoryError for a list the memory cannot hold. \<open>max_range\<close> is the
  largest machine integer, \<open>mem_range\<close> the longest list of integers the memory holds. A
  negative argument gives the empty list.
\<close>

record machine =
  max_items :: nat
  mem_items :: nat
  max_range :: nat
  mem_range :: nat

definition np_ones :: "machine \<Rightarrow> int \<Rightarrow> error + float64 list" where
  "np_ones m n =
     (if n < 0 then Inl ValueError
      else if int (max_items m) < n then Inl ValueError
      else if int (mem_items m) < n then Inl MemoryError
      else Inr (replicate (nat n) (Fin 1)))"

definition np_zeros :: "machine \<Rightarrow> int \<Rightarrow> error + float64 list" where
  "np_zeros m n =
     (if n < 0 then Inl ValueError
      else if int (max_items m) < n then Inl ValueError
      else if int (mem_items m) < n then Inl MemoryError
      else Inr (replicate (nat n) (Fin 0)))"

text \<open>\<^verbatim>\<open>range(n)\<close>: the number of indices the loop runs through.\<close>

definition py_range :: "machine \<Rightarrow> int \<Rightarrow> error + nat" where
  "py_range m n =
     (if int (max_range m) < n then Inl OverflowError
      else if int (mem_range m) < n then Inl MemoryError
      else Inr (nat n))"

text \<open>
  A 64-bit machine whose memory holds an array of \<open>2 ^ 30\<close> items (8 GiB) and a list of
  \<open>2 ^ 28\<close> integers.
\<close>

definition machine64 :: machine where
  "machine64 =
     \<lparr>max_items = 2 ^ 60 - 1, mem_items = 2 ^ 30, max_range = 2 ^ 63 - 1, mem_range = 2 ^ 28\<rparr>"

text \<open>
  The operations on Python floats that raise. \<^verbatim>\<open>1.0/days\<close> converts the integer (an
  integer beyond the range raises OverflowError) and raises ZeroDivisionError for zero;
  \<^verbatim>\<open>sigma**2\<close> and \<^verbatim>\<open>math.exp\<close> raise OverflowError when a finite argument gives an
  infinite result; \<^verbatim>\<open>math.sqrt\<close> raises ValueError for a negative argument.
\<close>

definition int_to_float :: "int \<Rightarrow> error + float64" where
  "int_to_float n =
     (if rnd (real_of_int n) = PInf \<or> rnd (real_of_int n) = NInf then Inl OverflowError
      else Inr (Fin (real_of_int n)))"

definition one_over :: "int \<Rightarrow> error + float64" where
  "one_over n =
     (case int_to_float n of
        Inl e \<Rightarrow> Inl e
      | Inr d \<Rightarrow> if n = 0 then Inl ZeroDivisionError else Inr (rnd (1 / real_of_int n)))"

fun py_square :: "float64 \<Rightarrow> error + float64" where
  "py_square (Fin a) = (if rnd (a * a) = PInf then Inl OverflowError else Inr (rnd (a * a)))"
| "py_square PInf = Inr PInf"
| "py_square NInf = Inr PInf"
| "py_square NaN = Inr NaN"

fun math_exp :: "float64 \<Rightarrow> error + float64" where
  "math_exp (Fin a) = (if rnd (exp a) = PInf then Inl OverflowError else Inr (rnd (exp a)))"
| "math_exp PInf = Inr PInf"
| "math_exp NInf = Inr (Fin 0)"
| "math_exp NaN = Inr NaN"

fun math_sqrt :: "float64 \<Rightarrow> error + float64" where
  "math_sqrt (Fin a) = (if a < 0 then Inl ValueError else Inr (Fin (sqrt a)))"
| "math_sqrt PInf = Inr PInf"
| "math_sqrt NInf = Inl ValueError"
| "math_sqrt NaN = Inr NaN"

text \<open>
  \<^verbatim>\<open>
  for j in range(days):
      growth_factor = const1*np.exp(const2*np.random.standard_normal(paths))
      stock_price = stock_price*growth_factor
      stock_price_sum = stock_price_sum + stock_price
  \<close>
  \<open>z j p\<close> is the standard normal draw of day \<open>j\<close> for path \<open>p\<close>, \<open>n\<close> the number of paths
  and \<open>k\<close> the number of days left.
\<close>

fun day_loop ::
  "(nat \<Rightarrow> nat \<Rightarrow> real) \<Rightarrow> float64 \<Rightarrow> float64 \<Rightarrow> nat \<Rightarrow> nat \<Rightarrow> nat \<Rightarrow>
     float64 list \<times> float64 list \<Rightarrow> float64 list \<times> float64 list" where
  "day_loop z const1 const2 n j 0 st = st"
| "day_loop z const1 const2 n j (Suc k) (stock_price, stock_price_sum) =
     (let growth_factor = map (\<lambda>p. fl_mul const1 (np_exp (fl_mul const2 (Fin (z j p))))) [0..<n];
          stock_price' = map2 fl_mul stock_price growth_factor;
          stock_price_sum' = map2 fl_add stock_price_sum stock_price'
      in day_loop z const1 const2 n (Suc j) k (stock_price', stock_price_sum'))"

text \<open>
  \<^verbatim>\<open>
  def price_option(S=100.0, K=100.0, sigma=0.25, r=0.05, days=260, paths=100000):
      h = 1.0/days
      const1 = exp((r-0.5*sigma**2)*h)
      const2 = sigma*sqrt(h)
      stock_price = S*np.ones(paths, dtype='float64')
      stock_price_sum = np.zeros(paths, dtype='float64')
      for j in range(days): ...
      stock_price_avg = stock_price_sum/days
      zeros = np.zeros(paths, dtype='float64')
      r_factor = exp(-r*h*days)
      euro_put = r_factor*np.mean(np.maximum(zeros, K-stock_price))
      asian_put = r_factor*np.mean(np.maximum(zeros, K-stock_price_avg))
      euro_call = r_factor*np.mean(np.maximum(zeros, stock_price-K))
      asian_call = r_factor*np.mean(np.maximum(zeros, stock_price_avg-K))
      return (euro_call, euro_put, asian_call, asian_put)
  \<close>
  The function of its six arguments, of the random draws \<open>z\<close> and of the machine \<open>m\<close> it
  runs on. The arguments \<open>S\<close>, \<open>K\<close>, \<open>sigma\<close> and \<open>r\<close> are Python floats, as the defaults
  are.
\<close>

definition price_option ::
  "machine \<Rightarrow> (nat \<Rightarrow> nat \<Rightarrow> real) \<Rightarrow> float64 \<Rightarrow> float64 \<Rightarrow> float64 \<Rightarrow> float64 \<Rightarrow> int \<Rightarrow> int \<Rightarrow>
     error + float64 \<times> float64 \<times> float64 \<times> float64" where
  "price_option m z S K sigma r days paths =
     (case one_over days of Inl e \<Rightarrow> Inl e | Inr h \<Rightarrow>
      case py_square sigma of Inl e \<Rightarrow> Inl e | Inr sigma2 \<Rightarrow>
      case math_exp (fl_mul (fl_sub r (fl_mul (Fin (1/2)) sigma2)) h) of
        Inl e \<Rightarrow> Inl e | Inr const1 \<Rightarrow>
      case math_sqrt h of Inl e \<Rightarrow> Inl e | Inr root_h \<Rightarrow>
      let const2 = fl_mul sigma root_h in
      case np_ones m paths of Inl e \<Rightarrow> Inl e | Inr ones \<Rightarrow>
      case np_zeros m paths of Inl e \<Rightarrow> Inl e | Inr zeros \<Rightarrow>
      case py_range m days of Inl e \<Rightarrow> Inl e | Inr n_days \<Rightarrow>
      let (stock_price, stock_price_sum) =
            day_loop z const1 const2 (nat paths) 0 n_days (map (fl_mul S) ones, zeros);
          stock_price_avg = map (\<lambda>x. fl_div_count x (nat days)) stock_price_sum in
      case math_exp (fl_mul (fl_mul (fl_neg r) h) (Fin (real_of_int days))) of
        Inl e \<Rightarrow> Inl e | Inr r_factor \<Rightarrow>
      let euro_put = fl_mul r_factor
            (np_mean (map2 np_maximum zeros (map (\<lambda>x. fl_sub K x) stock_price)));
          asian_put = fl_mul r_factor
            (np_mean (map2 np_maximum zeros (map (\<lambda>x. fl_sub K x) stock_price_avg)));
          euro_call = fl_mul r_factor
            (np_mean (map2 np_maximum zeros (map (\<lambda>x. fl_sub x K) stock_price)));
          asian_call = fl_mul r_factor
            (np_mean (map2 np_maximum zeros (map (\<lambda>x. fl_sub x K) stock_price_avg)))
      in Inr (euro_call, euro_put, asian_call, asian_put))"

text \<open>A price that is non-negative; a price that is non-negative or NaN.\<close>

definition non_negative :: "float64 \<Rightarrow> bool" where
  "non_negative x = (case x of Fin a \<Rightarrow> 0 \<le> a | PInf \<Rightarrow> True | NInf \<Rightarrow> False | NaN \<Rightarrow> False)"

definition ge_zero_or_nan :: "float64 \<Rightarrow> bool" where
  "ge_zero_or_nan x = (case x of Fin a \<Rightarrow> 0 \<le> a | PInf \<Rightarrow> True | NInf \<Rightarrow> False | NaN \<Rightarrow> True)"

text \<open>
  A float that is finite and of magnitude at most \<open>B\<close>; a float that is finite,
  non-negative and at most \<open>B\<close>.
\<close>

definition finite_upto :: "real \<Rightarrow> float64 \<Rightarrow> bool" where
  "finite_upto B x = (case x of Fin a \<Rightarrow> \<bar>a\<bar> \<le> B | PInf \<Rightarrow> False | NInf \<Rightarrow> False | NaN \<Rightarrow> False)"

definition nonneg_upto :: "real \<Rightarrow> float64 \<Rightarrow> bool" where
  "nonneg_upto B x =
     (case x of Fin a \<Rightarrow> 0 \<le> a \<and> a \<le> B | PInf \<Rightarrow> False | NInf \<Rightarrow> False | NaN \<Rightarrow> False)"

section \<open>The notebook's names\<close>

text \<open>
  A Python variable of the notebook holds a float or a 4-tuple of floats: the global
  \<^verbatim>\<open>price\<close> is bound to \<^verbatim>\<open>100.0\<close> in the parameter cell and bound again by the
  \<^verbatim>\<open>for i, price in enumerate(results)\<close> loop. The type \<open>'f\<close> of floats is left open
  wherever the code only moves numbers around.
\<close>

datatype 'f pyval = PyFloat 'f | PyTuple "'f \<times> 'f \<times> 'f \<times> 'f"

text \<open>
  The structured array \<^verbatim>\<open>prices\<close>: its cells in C order and its shape. A cell that
  \<^verbatim>\<open>np.empty\<close> allocated and nothing wrote yet is \<open>None\<close>.
\<close>

record 'f ndarray =
  data :: "('f \<times> 'f \<times> 'f \<times> 'f) option list"
  shape :: "nat list"

text \<open>
  The notebook's global namespace, as far as the computation cells read or write it. A name
  that is bound only by a later cell is \<open>None\<close> until then. \<open>loop_i\<close> is the loop variable
  \<^verbatim>\<open>i\<close> of the assembly cell.
\<close>

record 'f notebook =
  price :: "'f pyval"
  rate :: 'f
  days :: int
  paths :: int
  n_strikes :: nat
  n_sigmas :: nat
  strike_vals :: "'f list"
  sigma_vals :: "'f list"
  async_results :: "nat list option"
  results :: "('f \<times> 'f \<times> 'f \<times> 'f) list option"
  prices :: "'f ndarray option"
  loop_i :: "nat option"

section \<open>The assembly cell\<close>

text \<open>
  \<^verbatim>\<open>
  prices = np.empty(n_strikes*n_sigmas, dtype=[('ecall',float),('eput',float),
                                               ('acall',float),('aput',float)])
  for i, price in enumerate(results):
      prices[i] = tuple(price)
  prices.shape = (n_strikes, n_sigmas)
  \<close>
\<close>

definition np_empty :: "nat \<Rightarrow> 'f ndarray" where
  "np_empty n = \<lparr>data = replicate n None, shape = [n]\<rparr>"

text \<open>\<^verbatim>\<open>prices[i] = t\<close> on the flat array: an index past the end raises IndexError.\<close>

definition setitem :: "'f notebook \<Rightarrow> nat \<Rightarrow> 'f \<times> 'f \<times> 'f \<times> 'f \<Rightarrow> error + 'f notebook" where
  "setitem nb k t =
     (case prices nb of
        None \<Rightarrow> Inl NameError
      | Some arr \<Rightarrow>
          if k < length (data arr)
          then Inr (nb\<lparr>prices := Some (arr\<lparr>data := (data arr)[k := Some t]\<rparr>)\<rparr>)
          else Inl IndexError)"

text \<open>
  The loop over \<^verbatim>\<open>enumerate(results)\<close>, from index \<open>k\<close> on. Each iteration binds the
  globals \<^verbatim>\<open>i\<close> and \<^verbatim>\<open>price\<close> before the store.
\<close>

fun assemble_loop ::
  "'f notebook \<Rightarrow> nat \<Rightarrow> ('f \<times> 'f \<times> 'f \<times> 'f) list \<Rightarrow> error + 'f notebook" where
  "assemble_loop nb k [] = Inr nb"
| "assemble_loop nb k (r # rs) =
     (case setitem (nb\<lparr>loop_i := Some k, price := PyTuple r\<rparr>) k r of
        Inl e \<Rightarrow> Inl e
      | Inr nb' \<Rightarrow> assemble_loop nb' (Suc k) rs)"

text \<open>\<^verbatim>\<open>prices.shape = (r, c)\<close>: the new shape must hold as many cells as the array has.\<close>

definition set_shape :: "'f notebook \<Rightarrow> nat list \<Rightarrow> error + 'f notebook" where
  "set_shape nb sh =
     (case prices nb of
        None \<Rightarrow> Inl NameError
      | Some arr \<Rightarrow>
          if prod_list sh = length (data arr)
          then Inr (nb\<lparr>prices := Some (arr\<lparr>shape := sh\<rparr>)\<rparr>)
          else Inl ValueError)"

definition cell_assemble :: "'f notebook \<Rightarrow> error + 'f notebook" where
  "cell_assemble nb =
     (let nb1 = nb\<lparr>prices := Some (np_empty (n_strikes nb * n_sigmas nb))\<rparr> in
      case results nb1 of
        None \<Rightarrow> Inl NameError
      | Some rs \<Rightarrow>
          (case assemble_loop nb1 0 rs of
             Inl e \<Rightarrow> Inl e
           | Inr nb2 \<Rightarrow> set_shape nb2 [n_strikes nb2, n_sigmas nb2]))"

text \<open>Reading \<^verbatim>\<open>prices[i][j]\<close> of the two-dimensional array.\<close>

definition grid_get ::
  "'f ndarray \<Rightarrow> nat \<Rightarrow> nat \<Rightarrow> error + ('f \<times> 'f \<times> 'f \<times> 'f) option" where
  "grid_get arr i j =
     (case shape arr of
        [r, c] \<Rightarrow> if i < r \<and> j < c then Inr (data arr ! (i * c + j)) else Inl IndexError
      | _ \<Rightarrow> Inl IndexError)"

section \<open>The scheduling protocol\<close>

text \<open>
  The notebook hands its tasks to \<^verbatim>\<open>IPython.parallel\<close>: \<^verbatim>\<open>view.apply_async\<close>,
  \<^verbatim>\<open>Client.wait\<close> and \<^verbatim>\<open>AsyncResult.get\<close>. That library is not part of the repository;
  the definitions of this section follow the specification's data model (section 3) and its
  Scheduler and WorkerPool contracts (sections 4.1 and 4.2) instead.
\<close>

text \<open>Modelled from the spec: the status of a WorkUnit, Pending|Dispatched|Done|Failed.\<close>

datatype status = Pending | Dispatched | Done | Failed

text \<open>Modelled from the spec: the state of a Worker, Idle|Busy.\<close>

datatype wstate = Idle | Busy

text \<open>
  Modelled from the spec: a WorkUnit \<open>{id, params, status}\<close>, immutable except for its
  status. The parameters are left open here; the notebook's are
  \<open>(spot, strike, volatility, rate, days, paths)\<close>.
\<close>

record 'p workunit =
  uid :: nat
  params :: 'p
  status :: status

text \<open>
  Modelled from the spec: a Worker \<open>{id, state, current_unit}\<close>; the reference to its
  current unit is weak, so it is the unit's id.
\<close>

record worker =
  wid :: nat
  wstate :: wstate
  current_unit :: "nat option"

text \<open>
  Modelled from the spec: the Scheduler's shared state. \<open>units\<close> holds every submitted
  WorkUnit under its id, \<open>pending\<close> is the PendingQueue (ids, head first), \<open>workers\<close> the
  WorkerPool and \<open>table\<close> the ResultTable, from a unit's id to its tuple or error.
  \<open>next_id\<close> is the sequence number the next WorkUnit gets.
\<close>

record ('p, 'r) scheduler =
  units :: "nat \<Rightarrow> 'p workunit option"
  pending :: "nat list"
  workers :: "worker list"
  table :: "nat \<Rightarrow> (error + 'r) option"
  next_id :: nat

text \<open>Modelled from the spec: a status transition of the unit with id \<open>u\<close>.\<close>

definition set_status ::
  "nat \<Rightarrow> status \<Rightarrow> (nat \<Rightarrow> 'p workunit option) \<Rightarrow> (nat \<Rightarrow> 'p workunit option)" where
  "set_status u st m = (case m u of None \<Rightarrow> m | Some wu \<Rightarrow> m(u \<mapsto> wu\<lparr>status := st\<rparr>))"

text \<open>
  Modelled from the spec: \<open>submit(units) -> handles\<close> enqueues all units and returns one
  handle per unit; the ids must be unique (among the units and against those submitted
  before), otherwise SubmissionError. The units enter the PendingQueue in submission order.
  A handle is the unit's id.
\<close>

definition submit ::
  "('p, 'r) scheduler \<Rightarrow> 'p workunit list \<Rightarrow> error + (nat list \<times> ('p, 'r) scheduler)" where
  "submit sch us =
     (if distinct (map uid us) \<and> list_all (\<lambda>u. units sch (uid u) = None) us
      then Inr (map uid us,
                sch\<lparr>units := fold (\<lambda>u m. m(uid u \<mapsto> u\<lparr>status := Pending\<rparr>)) us (units sch),
                    pending := pending sch @ map uid us\<rparr>)
      else Inl SubmissionError)"

text \<open>
  Modelled from the spec: \<open>acquire_idle() -> Worker|None\<close> of the WorkerPool, a probe for an
  idle worker; among several idle workers the one with the least id (the tie-break of
  \<open>dispatch_loop\<close>).
\<close>

definition acquire_idle :: "worker list \<Rightarrow> worker option" where
  "acquire_idle ws =
     (case filter (\<lambda>wk. wstate wk = Idle) ws of
        [] \<Rightarrow> None
      | wk # rest \<Rightarrow> Some (fold (\<lambda>a b. if wid a < wid b then a else b) rest wk))"

text \<open>Modelled from the spec: \<open>release(worker_id)\<close> of the WorkerPool.\<close>

definition release :: "nat \<Rightarrow> worker list \<Rightarrow> worker list" where
  "release w ws =
     map (\<lambda>wk. if wid wk = w then wk\<lparr>wstate := Idle, current_unit := None\<rparr> else wk) ws"

text \<open>
  Modelled from the spec: assigning unit \<open>u\<close> to worker \<open>w\<close>, "transitioning unit to
  Dispatched and worker to Busy".
\<close>

definition assign :: "nat \<Rightarrow> nat \<Rightarrow> ('p, 'r) scheduler \<Rightarrow> ('p, 'r) scheduler" where
  "assign w u sch =
     sch\<lparr>units := set_status u Dispatched (units sch),
         workers := map (\<lambda>wk. if wid wk = w then wk\<lparr>wstate := Busy, current_unit := Some u\<rparr>
                               else wk) (workers sch)\<rparr>"

text \<open>
  Modelled from the spec: \<open>dispatch_loop()\<close>. Whenever a Worker is Idle and the
  PendingQueue is non-empty, it pops the head unit and assigns it to that Worker.
  \<open>dispatch_from q\<close> works through the queue \<open>q\<close> and stores what is left of it.
\<close>

fun dispatch_from :: "nat list \<Rightarrow> ('p, 'r) scheduler \<Rightarrow> ('p, 'r) scheduler" where
  "dispatch_from [] sch = sch\<lparr>pending := []\<rparr>"
| "dispatch_from (u # q) sch =
     (case acquire_idle (workers sch) of
        None \<Rightarrow> sch\<lparr>pending := u # q\<rparr>
      | Some wk \<Rightarrow> dispatch_from q (assign (wid wk) u sch))"

definition dispatch_loop :: "('p, 'r) scheduler \<Rightarrow> ('p, 'r) scheduler" where
  "dispatch_loop sch = dispatch_from (pending sch) sch"

text \<open>
  Modelled from the spec: what the ResultTable records for an outcome, the value of a
  computation or the WorkerExecutionError wrapping the cause of its failure.
\<close>

definition recorded :: "error + 'r \<Rightarrow> error + 'r" where
  "recorded outcome = (case outcome of Inl e \<Rightarrow> Inl (WorkerExecutionError e) | Inr v \<Rightarrow> Inr v)"

text \<open>
  Modelled from the spec: \<open>on_worker_result(worker_id, unit_id, outcome)\<close> marks the unit
  Done or Failed, frees the Worker, records the outcome in the ResultTable and at once
  dispatches the next pending unit to that Worker. A Failed unit is not queued again.
\<close>

definition on_worker_result ::
  "nat \<Rightarrow> nat \<Rightarrow> error + 'r \<Rightarrow> ('p, 'r) scheduler \<Rightarrow> ('p, 'r) scheduler" where
  "on_worker_result w u outcome sch =
     (let sch1 = sch\<lparr>units := set_status u (case outcome of Inl e \<Rightarrow> Failed | Inr v \<Rightarrow> Done)
                                 (units sch),
                     workers := release w (workers sch),
                     table := (table sch)(u \<mapsto> recorded outcome)\<rparr>
      in case pending sch1 of
           [] \<Rightarrow> sch1
         | u' # q \<Rightarrow> assign w u' (sch1\<lparr>pending := q\<rparr>))"

text \<open>
  Modelled from the spec: a Worker executes its current WorkUnit and returns a result or a
  failure. \<open>exec\<close> is the computation the units refer to; it gets the unit's id next to its
  parameters, so that it may stand for a function that also draws random numbers (the draws
  of a task being a function of the task). A worker without a unit reports nothing.
\<close>

definition worker_finish ::
  "(nat \<Rightarrow> 'p \<Rightarrow> error + 'r) \<Rightarrow> nat \<Rightarrow> ('p, 'r) scheduler \<Rightarrow> ('p, 'r) scheduler" where
  "worker_finish exec w sch =
     (case find (\<lambda>wk. wid wk = w) (workers sch) of
        None \<Rightarrow> sch
      | Some wk \<Rightarrow>
          (case current_unit wk of
             None \<Rightarrow> sch
           | Some u \<Rightarrow>
               (case units sch u of
                  None \<Rightarrow> sch
                | Some wu \<Rightarrow> on_worker_result w u (exec u (params wu)) sch)))"

text \<open>
  Modelled from the spec: one event of the scheduler loop. The dispatch loop "runs
  continuously", so every idle worker has been given work by the time the next worker,
  \<open>w\<close>, reports.
\<close>

definition step ::
  "(nat \<Rightarrow> 'p \<Rightarrow> error + 'r) \<Rightarrow> nat \<Rightarrow> ('p, 'r) scheduler \<Rightarrow> ('p, 'r) scheduler" where
  "step exec w sch = worker_finish exec w (dispatch_loop sch)"

text \<open>Modelled from the spec: a handle is terminal when its unit is Done or Failed.\<close>

definition terminal :: "('p, 'r) scheduler \<Rightarrow> nat \<Rightarrow> bool" where
  "terminal sch h =
     (case units sch h of None \<Rightarrow> False | Some wu \<Rightarrow> status wu = Done \<or> status wu = Failed)"

text \<open>
  Modelled from the spec: \<open>wait_all(handles) -> ResultTable slice\<close> suspends the coordinator
  until every handle is terminal. The workers report in the order \<open>ws\<close> (the ids of the
  workers that finish, one after the other); \<open>wait_all\<close> returns the slice, the scheduler and
  the reports not yet consumed, or \<open>None\<close> when the reports end while a handle is not
  terminal: the coordinator is still suspended.
\<close>

fun wait_loop ::
  "(nat \<Rightarrow> 'p \<Rightarrow> error + 'r) \<Rightarrow> nat list \<Rightarrow> ('p, 'r) scheduler \<Rightarrow> nat list \<Rightarrow>
     (('p, 'r) scheduler \<times> nat list) option" where
  "wait_loop exec hs sch [] = (if list_all (terminal sch) hs then Some (sch, []) else None)"
| "wait_loop exec hs sch (w # ws) =
     (if list_all (terminal sch) hs then Some (sch, w # ws)
      else wait_loop exec hs (step exec w sch) ws)"

definition wait_all ::
  "(nat \<Rightarrow> 'p \<Rightarrow> error + 'r) \<Rightarrow> ('p, 'r) scheduler \<Rightarrow> nat list \<Rightarrow> nat list \<Rightarrow>
     ((nat \<Rightarrow> (error + 'r) option) \<times> ('p, 'r) scheduler \<times> nat list) option" where
  "wait_all exec sch hs ws =
     (case wait_loop exec hs sch ws of
        None \<Rightarrow> None
      | Some (sch', ws') \<Rightarrow> Some (table sch' |` set hs, sch', ws'))"

text \<open>
  Modelled from the spec: the states of a Handle, \<open>{Pending, Done(value), Failed(error)}\<close>,
  and the inspection of a handle, read off the ResultTable.
\<close>

datatype 'r handle_state = StillPending | DoneWith 'r | FailedWith error

definition inspect :: "('p, 'r) scheduler \<Rightarrow> nat \<Rightarrow> 'r handle_state" where
  "inspect sch h =
     (case table sch h of
        None \<Rightarrow> StillPending
      | Some (Inl e) \<Rightarrow> FailedWith e
      | Some (Inr v) \<Rightarrow> DoneWith v)"

section \<open>The submission and retrieval cells\<close>

text \<open>
  \<^verbatim>\<open>ar = view.apply_async(price_option, price, strike, sigma, rate, days, paths)\<close>
  submits one task and returns its \<^verbatim>\<open>AsyncResult\<close> at once: a \<open>submit\<close> of one fresh
  WorkUnit, numbered by the client.
\<close>

definition apply_async ::
  "('p, 'r) scheduler \<Rightarrow> 'p \<Rightarrow> error + (nat \<times> ('p, 'r) scheduler)" where
  "apply_async sch p =
     (case submit sch [\<lparr>uid = next_id sch, params = p, status = Pending\<rparr>] of
        Inl e \<Rightarrow> Inl e
      | Inr (hs, sch') \<Rightarrow>
          (case hs of
             [] \<Rightarrow> Inl SubmissionError
           | h # _ \<Rightarrow> Inr (h, sch'\<lparr>next_id := Suc (next_id sch)\<rparr>)))"

text \<open>
  \<^verbatim>\<open>
  async_results = []
  for strike in strike_vals:
      for sigma in sigma_vals:
          ar = view.apply_async(price_option, price, strike, sigma, rate, days, paths)
          async_results.append(ar)
  c.wait(async_results)
  \<close>
  The two loops thread the list \<^verbatim>\<open>async_results\<close> and the scheduler.
\<close>

fun submit_sigmas ::
  "'f notebook \<Rightarrow> 'f \<Rightarrow> 'f list \<Rightarrow>
   nat list \<times> ('f pyval \<times> 'f \<times> 'f \<times> 'f \<times> int \<times> int, 'r) scheduler \<Rightarrow>
   error + (nat list \<times> ('f pyval \<times> 'f \<times> 'f \<times> 'f \<times> int \<times> int, 'r) scheduler)" where
  "submit_sigmas nb strike [] st = Inr st"
| "submit_sigmas nb strike (sigma # sigmas) (ars, sch) =
     (case apply_async sch (price nb, strike, sigma, rate nb, days nb, paths nb) of
        Inl e \<Rightarrow> Inl e
      | Inr (ar, sch') \<Rightarrow> submit_sigmas nb strike sigmas (ars @ [ar], sch'))"

fun submit_strikes ::
  "'f notebook \<Rightarrow> 'f list \<Rightarrow>
   nat list \<times> ('f pyval \<times> 'f \<times> 'f \<times> 'f \<times> int \<times> int, 'r) scheduler \<Rightarrow>
   error + (nat list \<times> ('f pyval \<times> 'f \<times> 'f \<times> 'f \<times> int \<times> int, 'r) scheduler)" where
  "submit_strikes nb [] st = Inr st"
| "submit_strikes nb (strike # strikes) st =
     (case submit_sigmas nb strike (sigma_vals nb) st of
        Inl e \<Rightarrow> Inl e
      | Inr st' \<Rightarrow> submit_strikes nb strikes st')"

text \<open>
  The submission cell. \<open>None\<close>: \<^verbatim>\<open>c.wait\<close> has not returned within the reports \<open>ws\<close>.
\<close>

definition cell_submit ::
  "(nat \<Rightarrow> 'f pyval \<times> 'f \<times> 'f \<times> 'f \<times> int \<times> int \<Rightarrow> error + 'f \<times> 'f \<times> 'f \<times> 'f) \<Rightarrow>
   'f notebook \<Rightarrow>
   ('f pyval \<times> 'f \<times> 'f \<times> 'f \<times> int \<times> int, 'f \<times> 'f \<times> 'f \<times> 'f) scheduler \<Rightarrow> nat list \<Rightarrow>
   (error + ('f notebook \<times>
             ('f pyval \<times> 'f \<times> 'f \<times> 'f \<times> int \<times> int, 'f \<times> 'f \<times> 'f \<times> 'f) scheduler \<times>
             nat list)) option" where
  "cell_submit exec nb sch ws =
     (case submit_strikes nb (strike_vals nb) ([], sch) of
        Inl e \<Rightarrow> Some (Inl e)
      | Inr (ars, sch1) \<Rightarrow>
          (case wait_all exec sch1 ars ws of
             None \<Rightarrow> None
           | Some (sl, sch2, ws') \<Rightarrow> Some (Inr (nb\<lparr>async_results := Some ars\<rparr>, sch2, ws'))))"

text \<open>
  \<^verbatim>\<open>ar.get()\<close> returns the task's result, re-raises the error of a failed task, and
  blocks (\<open>None\<close>) while the task is not finished.
\<close>

definition ar_get :: "('p, 'r) scheduler \<Rightarrow> nat \<Rightarrow> (error + 'r) option" where
  "ar_get sch h =
     (case inspect sch h of
        StillPending \<Rightarrow> None
      | FailedWith e \<Rightarrow> Some (Inl e)
      | DoneWith v \<Rightarrow> Some (Inr v))"

text \<open>
  \<^verbatim>\<open>results = [ar.get() for ar in async_results]\<close>: the results in the order of
  \<^verbatim>\<open>async_results\<close>; the first \<^verbatim>\<open>get\<close> that raises ends the comprehension, and
  \<^verbatim>\<open>results\<close> is not bound.
\<close>

fun get_all :: "('p, 'r) scheduler \<Rightarrow> nat list \<Rightarrow> (error + 'r list) option" where
  "get_all sch [] = Some (Inr [])"
| "get_all sch (h # hs) =
     (case ar_get sch h of
        None \<Rightarrow> None
      | Some (Inl e) \<Rightarrow> Some (Inl e)
      | Some (Inr v) \<Rightarrow>
          (case get_all sch hs of
             None \<Rightarrow> None
           | Some (Inl e) \<Rightarrow> Some (Inl e)
           | Some (Inr vs) \<Rightarrow> Some (Inr (v # vs))))"

definition cell_get ::
  "'f notebook \<Rightarrow> ('p, 'f \<times> 'f \<times> 'f \<times> 'f) scheduler \<Rightarrow> (error + 'f notebook) option" where
  "cell_get nb sch =
     (case async_results nb of
        None \<Rightarrow> Some (Inl NameError)
      | Some ars \<Rightarrow>
          (case get_all sch ars of
             None \<Rightarrow> None
           | Some (Inl e) \<Rightarrow> Some (Inl e)
           | Some (Inr rs) \<Rightarrow> Some (Inr (nb\<lparr>results := Some rs\<rparr>))))"

text \<open>
  The three cells in the notebook's order: submit and wait, retrieve, assemble. An error
  ends the run, as it ends the execution of the notebook.
\<close>

definition run_notebook ::
  "(nat \<Rightarrow> 'f pyval \<times> 'f \<times> 'f \<times> 'f \<times> int \<times> int \<Rightarrow> error + 'f \<times> 'f \<times> 'f \<times> 'f) \<Rightarrow>
   'f notebook \<Rightarrow>
   ('f pyval \<times> 'f \<times> 'f \<times> 'f \<times> int \<times> int, 'f \<times> 'f \<times> 'f \<times> 'f) scheduler \<Rightarrow> nat list \<Rightarrow>
   (error + ('f notebook \<times>
             ('f pyval \<times> 'f \<times> 'f \<times> 'f \<times> int \<times> int, 'f \<times> 'f \<times> 'f \<times> 'f) scheduler \<times>
             nat list)) option" where
  "run_notebook exec nb sch ws =
     (case cell_submit exec nb sch ws of
        None \<Rightarrow> None
      | Some (Inl e) \<Rightarrow> Some (Inl e)
      | Some (Inr (nb1, sch1, ws1)) \<Rightarrow>
          (case cell_get nb1 sch1 of
             None \<Rightarrow> None
           | Some (Inl e) \<Rightarrow> Some (Inl e)
           | Some (Inr nb2) \<Rightarrow>
               (case cell_assemble nb2 of
                  Inl e \<Rightarrow> Some (Inl e)
                | Inr nb3 \<Rightarrow> Some (Inr (nb3, sch1, ws1)))))"

section \<open>Descriptions used by the statements\<close>

text \<open>
  The tasks of the notebook in row-major Cartesian order, strike as the outer loop and
  volatility as the inner one: what the submission loops are compared with.
\<close>

definition grid_tasks :: "'f notebook \<Rightarrow> ('f pyval \<times> 'f \<times> 'f \<times> 'f \<times> int \<times> int) list" where
  "grid_tasks nb =
     concat (map (\<lambda>strike. map (\<lambda>sigma. (price nb, strike, sigma, rate nb, days nb, paths nb))
                               (sigma_vals nb))
                 (strike_vals nb))"

text \<open>
  The scheduler after the tasks \<open>ps\<close> were submitted one by one: they are numbered from
  \<open>next_id\<close> on, Pending, and at the end of the queue in this order.
\<close>

definition enqueue_all :: "'p list \<Rightarrow> ('p, 'r) scheduler \<Rightarrow> ('p, 'r) scheduler" where
  "enqueue_all ps sch =
     sch\<lparr>units := (\<lambda>u. if next_id sch \<le> u \<and> u < next_id sch + length ps
                        then Some \<lparr>uid = u, params = ps ! (u - next_id sch), status = Pending\<rparr>
                        else units sch u),
         pending := pending sch @ [next_id sch ..< next_id sch + length ps],
         next_id := next_id sch + length ps\<rparr>"

text \<open>
  On the ids in \<open>A\<close>, every entry of the ResultTable is what \<open>exec\<close> returns for that unit.
\<close>

definition table_ok ::
  "(nat \<Rightarrow> 'p \<Rightarrow> error + 'r) \<Rightarrow> nat set \<Rightarrow> ('p, 'r) scheduler \<Rightarrow> bool" where
  "table_ok exec A sch =
     (\<forall>u\<in>A. \<forall>r. table sch u = Some r \<longrightarrow>
        (\<exists>p. map_option params (units sch u) = Some p \<and> r = recorded (exec u p)))"

text \<open>What a run leaves: the assembled array, and the statuses of given units.\<close>

definition assembled_grid ::
  "(error + ('f notebook \<times> 's \<times> nat list)) option \<Rightarrow> 'f ndarray option" where
  "assembled_grid r = (case r of Some (Inr (nb', sch', ws')) \<Rightarrow> prices nb' | _ \<Rightarrow> None)"

definition final_statuses ::
  "(error + ('f notebook \<times> ('p, 'r) scheduler \<times> nat list)) option \<Rightarrow> nat list \<Rightarrow>
     status option list option" where
  "final_statuses r hs =
     (case r of
        Some (Inr (nb', sch', ws')) \<Rightarrow> Some (map (\<lambda>h. map_option status (units sch' h)) hs)
      | _ \<Rightarrow> None)"

text \<open>
  The scenario of the specification's section 8: strikes 90, 100, 110, volatilities 0.1,
  0.25, 0.4, two idle workers, nothing submitted yet, and a pricing function stubbed to
  return \<open>(strike, sigma, strike, sigma)\<close>. The other parameters are the notebook's.
\<close>

definition two_workers :: "('p, 'r) scheduler" where
  "two_workers =
     \<lparr>units = (\<lambda>u. None), pending = [],
      workers = [\<lparr>wid = 0, wstate = Idle, current_unit = None\<rparr>,
                 \<lparr>wid = 1, wstate = Idle, current_unit = None\<rparr>],
      table = (\<lambda>u. None), next_id = 0\<rparr>"

definition scenario_notebook :: "real notebook" where
  "scenario_notebook =
     \<lparr>price = PyFloat 100, rate = 1/20, days = 260, paths = 10000,
      n_strikes = 3, n_sigmas = 3, strike_vals = [90, 100, 110], sigma_vals = [1/10, 1/4, 2/5],
      async_results = None, results = None, prices = None, loop_i = None\<rparr>"

definition stub_pricing ::
  "nat \<Rightarrow> real pyval \<times> real \<times> real \<times> real \<times> int \<times> int \<Rightarrow>
     error + real \<times> real \<times> real \<times> real" where
  "stub_pricing u p =
     (case p of (spot, strike, sigma, r, d, n) \<Rightarrow> Inr (strike, sigma, strike, sigma))"

text \<open>
  On the ids in \<open>A\<close>, a unit that is Done or Failed has its entry in the ResultTable.
\<close>

definition done_recorded :: "nat set \<Rightarrow> ('p, 'r) scheduler \<Rightarrow> bool" where
  "done_recorded A sch = (\<forall>u\<in>A. terminal sch u \<longrightarrow> table sch u \<noteq> None)"

text \<open>
  The unit \<open>u\<close> is out of the scheduler's hands: it is not queued and no worker holds it.
\<close>

definition retired :: "nat \<Rightarrow> ('p, 'r) scheduler \<Rightarrow> bool" where
  "retired u sch =
     (u \<notin> set (pending sch) \<and> list_all (\<lambda>wk. current_unit wk \<noteq> Some u) (workers sch))"

text \<open>
  The order in which the results arrive when the workers report in the order \<open>ws\<close>: the
  unit each reporting worker was busy with.
\<close>

fun arrival_order ::
  "(nat \<Rightarrow> 'p \<Rightarrow> error + 'r) \<Rightarrow> ('p, 'r) scheduler \<Rightarrow> nat list \<Rightarrow> nat list" where
  "arrival_order exec sch [] = []"
| "arrival_order exec sch (w # ws) =
     (case find (\<lambda>wk. wid wk = w) (workers (dispatch_loop sch)) of
        None \<Rightarrow> []
      | Some wk \<Rightarrow> (case current_unit wk of None \<Rightarrow> [] | Some u \<Rightarrow> [u]))
     @ arrival_order exec (step exec w sch) ws"

text \<open>
  Modelled from the spec: the Coordinator submits its units and waits for all of them.
\<close>

definition submit_and_wait ::
  "(nat \<Rightarrow> 'p \<Rightarrow> error + 'r) \<Rightarrow> ('p, 'r) scheduler \<Rightarrow> 'p workunit list \<Rightarrow> nat list \<Rightarrow>
     ((nat \<Rightarrow> (error + 'r) option) \<times> ('p, 'r) scheduler \<times> nat list) option" where
  "submit_and_wait exec sch us ws =
     (case submit sch us of Inl e \<Rightarrow> None | Inr (hs, sch1) \<Rightarrow> wait_all exec sch1 hs ws)"

text \<open>
  What a wait leaves: the reports not consumed, the statuses of the given units and their
  entries in the returned slice. What a run raised, if it raised.
\<close>

definition waited ::
  "((nat \<Rightarrow> (error + 'r) option) \<times> ('p, 'r) scheduler \<times> nat list) option \<Rightarrow> nat list \<Rightarrow>
     (nat list \<times> status option list \<times> (error + 'r) option list) option" where
  "waited r hs =
     (case r of
        None \<Rightarrow> None
      | Some (sl, sch', ws') \<Rightarrow>
          Some (ws', map (\<lambda>h. map_option status (units sch' h)) hs, map sl hs))"

definition raised :: "(error + 'a) option \<Rightarrow> error option" where
  "raised r = (case r of Some (Inl e) \<Rightarrow> Some e | _ \<Rightarrow> None)"

text \<open>
  The second scenario of the specification's section 8: the stubbed pricing function raises
  for one unit, the fifth submitted (strike 100, volatility 0.25).
\<close>

definition failing_pricing ::
  "nat \<Rightarrow> real pyval \<times> real \<times> real \<times> real \<times> int \<times> int \<Rightarrow>
     error + real \<times> real \<times> real \<times> real" where
  "failing_pricing u p = (if u = 4 then Inl ValueError else stub_pricing u p)"

section \<open>Properties of the assembly cell\<close>

lemma setitem_frame:
  "setitem nb k t = Inr nb' \<Longrightarrow>
     price nb' = price nb \<and> rate nb' = rate nb \<and> days nb' = days nb \<and> paths nb' = paths nb \<and>
     n_strikes nb' = n_strikes nb \<and> n_sigmas nb' = n_sigmas nb \<and>
     strike_vals nb' = strike_vals nb \<and> sigma_vals nb' = sigma_vals nb \<and>
     async_results nb' = async_results nb \<and> results nb' = results nb \<and> loop_i nb' = loop_i nb"
  by (auto simp: setitem_def split: option.splits if_splits)

lemma assemble_loop_frame:
  "assemble_loop nb k rs = Inr nb' \<Longrightarrow>
     rate nb' = rate nb \<and> days nb' = days nb \<and> paths nb' = paths nb \<and>
     n_strikes nb' = n_strikes nb \<and> n_sigmas nb' = n_sigmas nb \<and>
     strike_vals nb' = strike_vals nb \<and> sigma_vals nb' = sigma_vals nb \<and>
     async_results nb' = async_results nb \<and> results nb' = results nb"
proof (induction rs arbitrary: nb k)
  case Nil
  then show ?case by simp
next
  case (Cons r rs)
  from Cons.prems obtain nb1 where
    s: "setitem (nb\<lparr>loop_i := Some k, price := PyTuple r\<rparr>) k r = Inr nb1" and
    l: "assemble_loop nb1 (Suc k) rs = Inr nb'"
    by (auto split: sum.splits)
  from setitem_frame [OF s] Cons.IH [OF l] show ?case by simp
qed

lemma assemble_loop_price:
  "assemble_loop nb k rs = Inr nb' \<Longrightarrow> rs \<noteq> [] \<Longrightarrow> price nb' = PyTuple (last rs)"
proof (induction rs arbitrary: nb k)
  case Nil
  then show ?case by simp
next
  case (Cons r rs)
  from Cons.prems obtain nb1 where
    s: "setitem (nb\<lparr>loop_i := Some k, price := PyTuple r\<rparr>) k r = Inr nb1" and
    l: "assemble_loop nb1 (Suc k) rs = Inr nb'"
    by (auto split: sum.splits)
  show ?case
  proof (cases rs)
    case Nil
    with l setitem_frame [OF s] show ?thesis by simp
  next
    case (Cons a list)
    with Cons.IH [OF l] show ?thesis by simp
  qed
qed

lemma set_shape_frame:
  "set_shape nb sh = Inr nb' \<Longrightarrow>
     price nb' = price nb \<and> rate nb' = rate nb \<and> days nb' = days nb \<and> paths nb' = paths nb \<and>
     n_strikes nb' = n_strikes nb \<and> n_sigmas nb' = n_sigmas nb \<and>
     strike_vals nb' = strike_vals nb \<and> sigma_vals nb' = sigma_vals nb \<and>
     async_results nb' = async_results nb \<and> results nb' = results nb \<and> loop_i nb' = loop_i nb"
  by (auto simp: set_shape_def split: option.splits if_splits)

text \<open>
  C10. The assembly cell rebinds the global \<open>price\<close>: when the cell completes on a non-empty
  result list (the notebook's has \<open>n_strikes * n_sigmas = 100\<close> entries), \<open>price\<close> holds the
  last result tuple and no longer the float it held (\<open>100.0\<close>, the spot passed to every
  task), while \<open>rate\<close>, \<open>days\<close>, \<open>paths\<close>, \<open>strike_vals\<close> and \<open>sigma_vals\<close> are unchanged.
  The tasks of the run had the float as their spot; the tasks the submission loops would
  build from the new state have the tuple.
\<close>

theorem assembly_rebinds_price:
  assumes "cell_assemble nb = Inr nb'"
    and "results nb = Some rs" and "rs \<noteq> []"
    and "price nb = PyFloat spot"
  shows "price nb' = PyTuple (last rs) \<and> price nb' \<noteq> price nb \<and>
         rate nb' = rate nb \<and> days nb' = days nb \<and> paths nb' = paths nb \<and>
         strike_vals nb' = strike_vals nb \<and> sigma_vals nb' = sigma_vals nb \<and>
         list_all (\<lambda>t. fst t = PyFloat spot) (grid_tasks nb) \<and>
         list_all (\<lambda>t. fst t = PyTuple (last rs)) (grid_tasks nb')"
proof -
  let ?nb1 = "nb\<lparr>prices := Some (np_empty (n_strikes nb * n_sigmas nb))\<rparr>"
  from assms(1,2) obtain nb2 where
    l: "assemble_loop ?nb1 0 rs = Inr nb2" and
    s: "set_shape nb2 [n_strikes nb2, n_sigmas nb2] = Inr nb'"
    by (auto simp: cell_assemble_def Let_def split: sum.splits)
  have t: "list_all (\<lambda>t. fst t = price m) (grid_tasks m)" for m :: "'a notebook"
    by (auto simp: grid_tasks_def list_all_iff)
  from assemble_loop_price [OF l assms(3)] assemble_loop_frame [OF l] set_shape_frame [OF s]
    assms(4) t [of nb] t [of nb']
  show ?thesis by simp
qed

theorem assembly_rebinds_price_witness:
  "cell_assemble
     \<lparr>price = PyFloat (100::real), rate = 1/20, days = 260, paths = 10000,
      n_strikes = 1, n_sigmas = 2, strike_vals = [90], sigma_vals = [1/10, 2/5],
      async_results = Some [0, 1], results = Some [(1, 2, 3, 4), (5, 6, 7, 8)],
      prices = None, loop_i = None\<rparr>
   = Inr \<lparr>price = PyTuple (5, 6, 7, 8), rate = 1/20, days = 260, paths = 10000,
      n_strikes = 1, n_sigmas = 2, strike_vals = [90], sigma_vals = [1/10, 2/5],
      async_results = Some [0, 1], results = Some [(1, 2, 3, 4), (5, 6, 7, 8)],
      prices = Some \<lparr>data = [Some (1, 2, 3, 4), Some (5, 6, 7, 8)], shape = [1, 2]\<rparr>,
      loop_i = Some 1\<rparr>
   \<and> PyTuple (5, 6, 7, 8) = PyTuple (last [(1, 2, 3, 4), (5, 6, 7, 8::real)])
   \<and> PyTuple (5, 6, 7, 8) \<noteq> PyFloat (100::real)"
proof -
  let ?nb = "\<lparr>price = PyFloat (100::real), rate = 1/20, days = 260, paths = 10000,
      n_strikes = 1, n_sigmas = 2, strike_vals = [90], sigma_vals = [1/10, 2/5],
      async_results = Some [0, 1], results = Some [(1, 2, 3, 4), (5, 6, 7, 8)],
      prices = None, loop_i = None\<rparr>"
  let ?nb' = "\<lparr>price = PyTuple (5, 6, 7, 8::real), rate = 1/20, days = 260, paths = 10000,
      n_strikes = 1, n_sigmas = 2, strike_vals = [90], sigma_vals = [1/10, 2/5],
      async_results = Some [0, 1], results = Some [(1, 2, 3, 4), (5, 6, 7, 8)],
      prices = Some \<lparr>data = [Some (1, 2, 3, 4), Some (5, 6, 7, 8)], shape = [1, 2]\<rparr>,
      loop_i = Some 1\<rparr>"
  have run: "cell_assemble ?nb = Inr ?nb'"
    by (simp add: cell_assemble_def np_empty_def setitem_def set_shape_def Let_def
        numeral_2_eq_2)
  from assembly_rebinds_price [OF run, of "[(1, 2, 3, 4), (5, 6, 7, 8)]" 100] run
  show ?thesis by simp
qed

section \<open>The submission loops\<close>

lemma enqueue_all_fields:
  "units (enqueue_all ps sch) u =
     (if next_id sch \<le> u \<and> u < next_id sch + length ps
      then Some \<lparr>uid = u, params = ps ! (u - next_id sch), status = Pending\<rparr>
      else units sch u)"
  "pending (enqueue_all ps sch) = pending sch @ [next_id sch ..< next_id sch + length ps]"
  "next_id (enqueue_all ps sch) = next_id sch + length ps"
  "workers (enqueue_all ps sch) = workers sch"
  "table (enqueue_all ps sch) = table sch"
  "scheduler.more (enqueue_all ps sch) = scheduler.more sch"
  by (simp_all add: enqueue_all_def)

lemma enqueue_all_Nil: "enqueue_all [] sch = sch"
proof (rule scheduler.equality)
  show "units (enqueue_all [] sch) = units sch"
    by (rule ext) (auto simp: enqueue_all_fields)
qed (simp_all add: enqueue_all_fields)

lemma enqueue_all_append:
  "enqueue_all (ps @ qs) sch = enqueue_all qs (enqueue_all ps sch)"
proof (rule scheduler.equality)
  show "units (enqueue_all (ps @ qs) sch) = units (enqueue_all qs (enqueue_all ps sch))"
  proof
    fix u
    show "units (enqueue_all (ps @ qs) sch) u = units (enqueue_all qs (enqueue_all ps sch)) u"
      by (cases "u < next_id sch + length ps") (auto simp: enqueue_all_fields nth_append)
  qed
  have "[next_id sch ..< next_id sch + length (ps @ qs)] =
        [next_id sch ..< (next_id sch + length ps) + length qs]"
    by (simp add: add.assoc)
  also have "\<dots> = [next_id sch ..< next_id sch + length ps] @
                    [next_id sch + length ps ..< next_id sch + length ps + length qs]"
    by (rule upt_add_eq_append) simp
  finally show "pending (enqueue_all (ps @ qs) sch) =
      pending (enqueue_all qs (enqueue_all ps sch))"
    by (simp add: enqueue_all_fields)
qed (simp_all add: enqueue_all_fields)

lemma apply_async_Inr:
  assumes "apply_async sch p = Inr (h, sch')"
  shows "h = next_id sch \<and> sch' = enqueue_all [p] sch"
proof -
  from assms have f: "units sch (next_id sch) = None"
    by (auto simp: apply_async_def submit_def split: if_splits)
  from assms f have h: "h = next_id sch"
    by (simp add: apply_async_def submit_def)
  from assms f have s: "sch' = sch\<lparr>units := (units sch)(next_id sch \<mapsto> \<lparr>uid = next_id sch, params = p, status = Pending\<rparr>),
     pending := pending sch @ [next_id sch], next_id := Suc (next_id sch)\<rparr>"
    by (auto simp: apply_async_def submit_def)
  have "sch' = enqueue_all [p] sch"
  proof (rule scheduler.equality)
    show "units sch' = units (enqueue_all [p] sch)"
      by (rule ext) (auto simp: s enqueue_all_fields)
  qed (simp_all add: s enqueue_all_fields)
  with h show ?thesis by simp
qed

lemma submit_sigmas_Inr:
  "submit_sigmas nb strike sigmas (ars, sch) = Inr (ars', sch') \<Longrightarrow>
     ars' = ars @ [next_id sch ..< next_id sch + length sigmas] \<and>
     sch' = enqueue_all (map (\<lambda>sigma. (price nb, strike, sigma, rate nb, days nb, paths nb)) sigmas) sch"
proof (induction sigmas arbitrary: ars sch)
  case Nil
  then show ?case by (simp add: enqueue_all_Nil)
next
  case (Cons sigma sigmas)
  let ?p = "(price nb, strike, sigma, rate nb, days nb, paths nb)"
  from Cons.prems obtain ar sch1 where
    a: "apply_async sch ?p = Inr (ar, sch1)" and
    r: "submit_sigmas nb strike sigmas (ars @ [ar], sch1) = Inr (ars', sch')"
    by (auto split: sum.splits)
  from apply_async_Inr [OF a] have ar: "ar = next_id sch" and sch1: "sch1 = enqueue_all [?p] sch"
    by simp_all
  have n1: "next_id sch1 = Suc (next_id sch)" by (simp add: sch1 enqueue_all_fields)
  let ?f = "\<lambda>sigma. (price nb, strike, sigma, rate nb, days nb, paths nb)"
  from Cons.IH [OF r] have
    1: "ars' = (ars @ [ar]) @ [next_id sch1 ..< next_id sch1 + length sigmas]" and
    2: "sch' = enqueue_all (map ?f sigmas) sch1"
    by simp_all
  have "[next_id sch ..< next_id sch + length (sigma # sigmas)] =
        next_id sch # [Suc (next_id sch) ..< Suc (next_id sch) + length sigmas]"
    by (subst upt_rec) simp
  with 1 have a': "ars' = ars @ [next_id sch ..< next_id sch + length (sigma # sigmas)]"
    by (simp only: ar n1 append_assoc append_Cons append_Nil)
  have "enqueue_all (map ?f (sigma # sigmas)) sch = enqueue_all ([?p] @ map ?f sigmas) sch"
    by simp
  also have "\<dots> = enqueue_all (map ?f sigmas) (enqueue_all [?p] sch)"
    by (rule enqueue_all_append)
  finally have "sch' = enqueue_all (map ?f (sigma # sigmas)) sch"
    by (simp only: 2 sch1)
  with a' show ?case by blast
qed

lemma submit_strikes_Inr:
  "submit_strikes nb strikes (ars, sch) = Inr (ars', sch') \<Longrightarrow>
     ars' = ars @ [next_id sch ..< next_id sch +
        length (concat (map (\<lambda>strike. map (\<lambda>sigma. (price nb, strike, sigma, rate nb, days nb, paths nb))
                               (sigma_vals nb)) strikes))] \<and>
     sch' = enqueue_all (concat (map (\<lambda>strike. map (\<lambda>sigma. (price nb, strike, sigma, rate nb, days nb, paths nb))
                               (sigma_vals nb)) strikes)) sch"
proof (induction strikes arbitrary: ars sch)
  case Nil
  then show ?case by (simp add: enqueue_all_Nil)
next
  case (Cons strike strikes)
  let ?row = "\<lambda>strike. map (\<lambda>sigma. (price nb, strike, sigma, rate nb, days nb, paths nb))
                               (sigma_vals nb)"
  let ?n = "next_id sch"
  from Cons.prems obtain ars1 sch1 where
    a: "submit_sigmas nb strike (sigma_vals nb) (ars, sch) = Inr (ars1, sch1)" and
    r: "submit_strikes nb strikes (ars1, sch1) = Inr (ars', sch')"
    by (auto split: sum.splits)
  from submit_sigmas_Inr [OF a] have
    ars1: "ars1 = ars @ [?n ..< ?n + length (?row strike)]" and
    sch1: "sch1 = enqueue_all (?row strike) sch"
    by simp_all
  have n1: "next_id sch1 = ?n + length (?row strike)"
    by (simp add: sch1 enqueue_all_fields)
  from Cons.IH [OF r] have
    1: "ars' = ars1 @ [next_id sch1 ..< next_id sch1 + length (concat (map ?row strikes))]" and
    2: "sch' = enqueue_all (concat (map ?row strikes)) sch1"
    by simp_all
  have "[?n ..< ?n + length (concat (map ?row (strike # strikes)))] =
        [?n ..< (?n + length (?row strike)) + length (concat (map ?row strikes))]"
    by (simp add: add.assoc)
  also have "\<dots> = [?n ..< ?n + length (?row strike)] @
       [?n + length (?row strike) ..< ?n + length (?row strike) + length (concat (map ?row strikes))]"
    by (rule upt_add_eq_append) simp
  finally have a': "ars' = ars @ [?n ..< ?n + length (concat (map ?row (strike # strikes)))]"
    by (simp only: 1 ars1 n1 append_assoc)
  have "enqueue_all (concat (map ?row (strike # strikes))) sch =
        enqueue_all (?row strike @ concat (map ?row strikes)) sch"
    by simp
  also have "\<dots> = enqueue_all (concat (map ?row strikes)) (enqueue_all (?row strike) sch)"
    by (rule enqueue_all_append)
  finally have "sch' = enqueue_all (concat (map ?row (strike # strikes))) sch"
    by (simp only: 2 sch1)
  with a' show ?case by blast
qed

lemma length_concat_grid:
  "length (concat (map (\<lambda>x. map (f x) ys) xs)) = length xs * length ys"
  by (induction xs) simp_all

lemma nth_concat_grid:
  "i < length xs \<Longrightarrow> j < length ys \<Longrightarrow>
     concat (map (\<lambda>x. map (f x) ys) xs) ! (i * length ys + j) = f (xs ! i) (ys ! j)"
proof (induction xs arbitrary: i)
  case Nil
  then show ?case by simp
next
  case (Cons x xs)
  show ?case
  proof (cases i)
    case 0
    with Cons.prems show ?thesis by (simp add: nth_append)
  next
    case (Suc i')
    with Cons.prems have "i' < length xs" by simp
    from Cons.IH [OF this Cons.prems(2)] Suc show ?thesis
      by (simp add: nth_append add.assoc)
  qed
qed

lemma grid_index_less:
  "i < (n::nat) \<Longrightarrow> j < m \<Longrightarrow> i * m + j < n * m"
proof -
  assume "i < n" "j < m"
  then have "i * m + j < i * m + m" by simp
  also have "\<dots> = Suc i * m" by simp
  also from \<open>i < n\<close> have "\<dots> \<le> n * m" by (intro mult_le_mono1) simp
  finally show ?thesis .
qed

section \<open>Steps of the scheduler\<close>

lemma set_status_params:
  "map_option params (set_status u st m v) = map_option params (m v)"
  by (simp add: set_status_def split: option.splits)

lemma assign_fields:
  "map_option params (units (assign w u sch) v) = map_option params (units sch v)"
  "table (assign w u sch) = table sch"
  "next_id (assign w u sch) = next_id sch"
  "pending (assign w u sch) = pending sch"
  by (simp_all add: assign_def set_status_params)

lemma dispatch_from_fields:
  "map_option params (units (dispatch_from q sch) v) = map_option params (units sch v) \<and>
   table (dispatch_from q sch) = table sch \<and>
   next_id (dispatch_from q sch) = next_id sch"
  by (induction q arbitrary: sch) (simp_all add: assign_fields split: option.splits)

lemma dispatch_loop_fields:
  "map_option params (units (dispatch_loop sch) v) = map_option params (units sch v)"
  "table (dispatch_loop sch) = table sch"
  "next_id (dispatch_loop sch) = next_id sch"
  by (simp_all add: dispatch_loop_def dispatch_from_fields)

lemma on_worker_result_fields:
  "map_option params (units (on_worker_result w u outcome sch) v) = map_option params (units sch v)"
  "table (on_worker_result w u outcome sch) = (table sch)(u \<mapsto> recorded outcome)"
  "next_id (on_worker_result w u outcome sch) = next_id sch"
  by (simp_all add: on_worker_result_def Let_def assign_fields set_status_params split: list.splits)

lemma worker_finish_cases:
  "worker_finish exec w sch = sch \<or>
   (\<exists>u wu. units sch u = Some wu \<and>
      worker_finish exec w sch = on_worker_result w u (exec u (params wu)) sch)"
  by (auto simp: worker_finish_def split: option.splits)

lemma worker_finish_params:
  "map_option params (units (worker_finish exec w sch) v) = map_option params (units sch v)"
  using worker_finish_cases [of exec w sch] by (auto simp: on_worker_result_fields)

lemma worker_finish_next_id: "next_id (worker_finish exec w sch) = next_id sch"
  using worker_finish_cases [of exec w sch] by (auto simp: on_worker_result_fields)

lemma worker_finish_table_ok:
  assumes "table_ok exec A sch"
  shows "table_ok exec A (worker_finish exec w sch)"
proof -
  from worker_finish_cases [of exec w sch] show ?thesis
  proof
    assume "worker_finish exec w sch = sch"
    with assms show ?thesis by simp
  next
    assume "\<exists>u wu. units sch u = Some wu \<and>
      worker_finish exec w sch = on_worker_result w u (exec u (params wu)) sch"
    then obtain u wu where u: "units sch u = Some wu" and
      e: "worker_finish exec w sch = on_worker_result w u (exec u (params wu)) sch"
      by blast
    show ?thesis
      unfolding table_ok_def e
    proof (intro ballI allI impI)
      fix v r
      assume v: "v \<in> A" and
        t: "table (on_worker_result w u (exec u (params wu)) sch) v = Some r"
      show "\<exists>p. map_option params (units (on_worker_result w u (exec u (params wu)) sch) v) = Some p \<and>
               r = recorded (exec v p)"
      proof (cases "v = u")
        case True
        with t u show ?thesis by (simp add: on_worker_result_fields)
      next
        case False
        with t have "table sch v = Some r" by (simp add: on_worker_result_fields)
        with assms v show ?thesis by (simp add: table_ok_def on_worker_result_fields)
      qed
    qed
  qed
qed

lemma step_params:
  "map_option params (units (step exec w sch) v) = map_option params (units sch v)"
  by (simp add: step_def worker_finish_params dispatch_loop_fields)

lemma step_next_id: "next_id (step exec w sch) = next_id sch"
  by (simp add: step_def worker_finish_next_id dispatch_loop_fields)

lemma step_table_ok:
  assumes "table_ok exec A sch"
  shows "table_ok exec A (step exec w sch)"
proof -
  from assms have "table_ok exec A (dispatch_loop sch)"
    by (simp add: table_ok_def dispatch_loop_fields)
  then show ?thesis unfolding step_def by (rule worker_finish_table_ok)
qed

lemma fold_step_params:
  "map_option params (units (fold (step exec) ws sch) v) = map_option params (units sch v)"
  by (induction ws arbitrary: sch) (simp_all add: step_params)

lemma fold_step_table_ok:
  "table_ok exec A sch \<Longrightarrow> table_ok exec A (fold (step exec) ws sch)"
  by (induction ws arbitrary: sch) (simp_all add: step_table_ok)

lemma wait_loop_Some:
  "wait_loop exec hs sch ws = Some (sch', ws') \<Longrightarrow>
     \<exists>n\<le>length ws. sch' = fold (step exec) (take n ws) sch \<and> ws' = drop n ws \<and>
        list_all (terminal sch') hs \<and>
        (\<forall>m<n. \<not> list_all (terminal (fold (step exec) (take m ws) sch)) hs)"
proof (induction ws arbitrary: sch)
  case Nil
  then show ?case by (simp split: if_splits)
next
  case (Cons w ws)
  show ?case
  proof (cases "list_all (terminal sch) hs")
    case True
    with Cons.prems have "sch' = sch" "ws' = w # ws" by simp_all
    with True show ?thesis by (intro exI [of _ 0]) simp
  next
    case False
    with Cons.prems have "wait_loop exec hs (step exec w sch) ws = Some (sch', ws')" by simp
    from Cons.IH [OF this] obtain n where n: "n \<le> length ws"
      "sch' = fold (step exec) (take n ws) (step exec w sch)" "ws' = drop n ws"
      "list_all (terminal sch') hs"
      "\<forall>m<n. \<not> list_all (terminal (fold (step exec) (take m ws) (step exec w sch))) hs"
      by blast
    show ?thesis
    proof (intro exI [of _ "Suc n"] conjI allI impI)
      fix m assume "m < Suc n"
      show "\<not> list_all (terminal (fold (step exec) (take m (w # ws)) sch)) hs"
      proof (cases m)
        case 0
        with False show ?thesis by simp
      next
        case (Suc m')
        with \<open>m < Suc n\<close> n(5) show ?thesis by simp
      qed
    qed (use n in simp_all)
  qed
qed

section \<open>Retrieval and assembly\<close>

lemma ar_get_Inr: "ar_get sch h = Some (Inr v) \<longleftrightarrow> table sch h = Some (Inr v)"
  by (auto simp: ar_get_def inspect_def split: option.splits sum.splits handle_state.splits)

lemma get_all_Inr:
  "get_all sch hs = Some (Inr vs) \<Longrightarrow>
     length vs = length hs \<and> (\<forall>k<length hs. table sch (hs ! k) = Some (Inr (vs ! k)))"
proof (induction hs arbitrary: vs)
  case Nil
  then show ?case by simp
next
  case (Cons h hs)
  from Cons.prems obtain v vs' where
    v: "ar_get sch h = Some (Inr v)" and r: "get_all sch hs = Some (Inr vs')" and
    vs: "vs = v # vs'"
    by (auto split: option.splits sum.splits)
  from Cons.IH [OF r] v show ?case
    by (auto simp: vs ar_get_Inr nth_Cons split: nat.splits)
qed

lemma setitem_prices:
  "setitem nb k t = Inr nb' \<Longrightarrow>
     \<exists>arr. prices nb = Some arr \<and> k < length (data arr) \<and>
           prices nb' = Some (arr\<lparr>data := (data arr)[k := Some t]\<rparr>)"
  by (auto simp: setitem_def split: option.splits if_splits)

lemma assemble_loop_data:
  "assemble_loop nb k rs = Inr nb' \<Longrightarrow> prices nb = Some arr \<Longrightarrow>
     \<exists>arr'. prices nb' = Some arr' \<and> shape arr' = shape arr \<and>
        length (data arr') = length (data arr) \<and>
        (rs \<noteq> [] \<longrightarrow> k + length rs \<le> length (data arr)) \<and>
        (\<forall>m<length rs. data arr' ! (k + m) = Some (rs ! m)) \<and>
        (\<forall>m<k. data arr' ! m = data arr ! m)"
proof (induction rs arbitrary: nb k arr)
  case Nil
  then show ?case by simp
next
  case (Cons r rs)
  from Cons.prems(1) obtain nb1 where
    s: "setitem (nb\<lparr>loop_i := Some k, price := PyTuple r\<rparr>) k r = Inr nb1" and
    l: "assemble_loop nb1 (Suc k) rs = Inr nb'"
    by (auto split: sum.splits)
  from setitem_prices [OF s] Cons.prems(2) have k: "k < length (data arr)" and
    p1: "prices nb1 = Some (arr\<lparr>data := (data arr)[k := Some r]\<rparr>)"
    by auto
  from Cons.IH [OF l p1] obtain arr' where a:
    "prices nb' = Some arr'" "shape arr' = shape arr"
    "length (data arr') = length (data arr)"
    "rs \<noteq> [] \<longrightarrow> Suc k + length rs \<le> length (data arr)"
    "\<forall>m<length rs. data arr' ! (Suc k + m) = Some (rs ! m)"
    "\<forall>m<Suc k. data arr' ! m = (data arr)[k := Some r] ! m"
    by auto
  have "\<forall>m<length (r # rs). data arr' ! (k + m) = Some ((r # rs) ! m)"
  proof (intro allI impI)
    fix m assume m: "m < length (r # rs)"
    show "data arr' ! (k + m) = Some ((r # rs) ! m)"
    proof (cases m)
      case 0
      with a(6) k show ?thesis by simp
    next
      case (Suc m')
      with m a(5) show ?thesis by simp
    qed
  qed
  moreover have "\<forall>m<k. data arr' ! m = data arr ! m"
    using a(6) by simp
  moreover have "k + length (r # rs) \<le> length (data arr)"
    using a(4) k by (cases rs) simp_all
  ultimately show ?case using a(1-3) by simp
qed

lemma set_shape_prices:
  "set_shape nb sh = Inr nb' \<Longrightarrow>
     \<exists>arr. prices nb = Some arr \<and> prices nb' = Some (arr\<lparr>shape := sh\<rparr>)"
  by (auto simp: set_shape_def split: option.splits if_splits)

lemma cell_assemble_data:
  assumes "cell_assemble nb = Inr nb'" and "results nb = Some rs"
  shows "\<exists>arr. prices nb' = Some arr \<and> shape arr = [n_strikes nb, n_sigmas nb] \<and>
           length (data arr) = n_strikes nb * n_sigmas nb \<and>
           length rs \<le> n_strikes nb * n_sigmas nb \<and>
           (\<forall>m<length rs. data arr ! m = Some (rs ! m))"
proof -
  let ?nb1 = "nb\<lparr>prices := Some (np_empty (n_strikes nb * n_sigmas nb))\<rparr>"
  from assms obtain nb2 where
    l: "assemble_loop ?nb1 0 rs = Inr nb2" and
    s: "set_shape nb2 [n_strikes nb2, n_sigmas nb2] = Inr nb'"
    by (auto simp: cell_assemble_def Let_def split: sum.splits)
  have p: "prices ?nb1 = Some (np_empty (n_strikes nb * n_sigmas nb))" by simp
  from assemble_loop_data [OF l p] obtain arr' where a:
    "prices nb2 = Some arr'"
    "length (data arr') = n_strikes nb * n_sigmas nb" "length rs \<le> n_strikes nb * n_sigmas nb"
    "\<forall>m<length rs. data arr' ! m = Some (rs ! m)"
    by (cases rs) (auto simp: np_empty_def)
  from assemble_loop_frame [OF l] have n: "n_strikes nb2 = n_strikes nb" "n_sigmas nb2 = n_sigmas nb"
    by simp_all
  from set_shape_prices [OF s] a(1) n
  have "prices nb' = Some (arr'\<lparr>shape := [n_strikes nb, n_sigmas nb]\<rparr>)" by auto
  with a show ?thesis by simp
qed

lemma recorded_Inr: "recorded x = Inr v \<longleftrightarrow> x = Inr v"
  by (cases x) (simp_all add: recorded_def)

lemma cell_submit_Inr:
  assumes "cell_submit exec nb sch ws = Some (Inr (nb1, sch1, ws1))"
  shows "\<exists>n\<le>length ws.
           nb1 = nb\<lparr>async_results := Some [next_id sch ..< next_id sch + length (grid_tasks nb)]\<rparr> \<and>
           sch1 = fold (step exec) (take n ws) (enqueue_all (grid_tasks nb) sch) \<and>
           ws1 = drop n ws \<and>
           list_all (terminal sch1) [next_id sch ..< next_id sch + length (grid_tasks nb)] \<and>
           (\<forall>m<n. \<not> list_all (terminal (fold (step exec) (take m ws)
                      (enqueue_all (grid_tasks nb) sch)))
                    [next_id sch ..< next_id sch + length (grid_tasks nb)])"
proof -
  from assms obtain ars schA sl where
    s: "submit_strikes nb (strike_vals nb) ([], sch) = Inr (ars, schA)" and
    w: "wait_all exec schA ars ws = Some (sl, sch1, ws1)" and
    nb1: "nb1 = nb\<lparr>async_results := Some ars\<rparr>"
    by (auto simp: cell_submit_def split: sum.splits option.splits)
  from submit_strikes_Inr [OF s] have
    ars: "ars = [next_id sch ..< next_id sch + length (grid_tasks nb)]" and
    schA: "schA = enqueue_all (grid_tasks nb) sch"
    by (simp_all add: grid_tasks_def)
  from w have "wait_loop exec ars schA ws = Some (sch1, ws1)"
    by (auto simp: wait_all_def split: option.splits)
  from wait_loop_Some [OF this] show ?thesis
    unfolding nb1 ars schA by blast
qed

lemma run_notebook_Inr:
  assumes run: "run_notebook exec nb sch ws = Some (Inr (nb', sch', ws'))"
    and fresh: "\<forall>u\<ge>next_id sch. table sch u = None"
  shows "\<exists>rs. length rs = length (grid_tasks nb) \<and>
           (\<forall>k<length rs. exec (next_id sch + k) (grid_tasks nb ! k) = Inr (rs ! k) \<and>
                          table sch' (next_id sch + k) = Some (Inr (rs ! k))) \<and>
           cell_assemble
             (nb\<lparr>async_results := Some [next_id sch ..< next_id sch + length (grid_tasks nb)],
                 results := Some rs\<rparr>) = Inr nb'"
proof -
  let ?n = "next_id sch" and ?N = "length (grid_tasks nb)"
  let ?ars = "[?n ..< ?n + ?N]"
  let ?schA = "enqueue_all (grid_tasks nb) sch"
  from run obtain nb1 ws1 nb2 where
    c1: "cell_submit exec nb sch ws = Some (Inr (nb1, sch', ws1))" and
    c2: "cell_get nb1 sch' = Some (Inr nb2)" and
    c3: "cell_assemble nb2 = Inr nb'"
    by (auto simp: run_notebook_def split: option.splits sum.splits)
  from cell_submit_Inr [OF c1] obtain m where
    nb1: "nb1 = nb\<lparr>async_results := Some ?ars\<rparr>" and
    sch': "sch' = fold (step exec) (take m ws) ?schA"
    by blast
  from c2 nb1 obtain rs where
    g: "get_all sch' ?ars = Some (Inr rs)" and nb2: "nb2 = nb1\<lparr>results := Some rs\<rparr>"
    by (auto simp: cell_get_def split: option.splits sum.splits)
  from get_all_Inr [OF g] have
    len: "length rs = ?N" and
    tab: "\<forall>k<?N. table sch' (?n + k) = Some (Inr (rs ! k))"
    by simp_all
  from fresh have "table_ok exec {?n..} ?schA"
    by (simp add: table_ok_def enqueue_all_fields)
  then have ok: "table_ok exec {?n..} sch'"
    unfolding sch' by (rule fold_step_table_ok)
  have par: "map_option params (units sch' (?n + k)) = Some (grid_tasks nb ! k)" if "k < ?N" for k
    using that unfolding sch' by (simp add: fold_step_params enqueue_all_fields)
  have "exec (?n + k) (grid_tasks nb ! k) = Inr (rs ! k)" if k: "k < ?N" for k
  proof -
    from tab k have "table sch' (?n + k) = Some (Inr (rs ! k))" by simp
    with ok obtain p where "map_option params (units sch' (?n + k)) = Some p"
      "Inr (rs ! k) = recorded (exec (?n + k) p)"
      unfolding table_ok_def by force
    with par [OF k] have "recorded (exec (?n + k) (grid_tasks nb ! k)) = Inr (rs ! k)"
      by simp
    then show ?thesis by (simp only: recorded_Inr)
  qed
  with tab len c3 show ?thesis
    unfolding nb2 nb1 by (intro exI [of _ rs]) simp
qed

text \<open>
  C1. When the notebook's run completes, the cell \<open>(i, j)\<close> of the assembled array holds the
  4-tuple that the pricing function returned for \<open>(strike_vals[i], sigma_vals[j])\<close> and the
  fixed parameters, for every strike axis and volatility axis (of the lengths \<open>n_strikes\<close>
  and \<open>n_sigmas\<close>, as \<^verbatim>\<open>np.linspace\<close> makes them), and that unit is Done. The witness is the
  scenario with the stubbed pricing function: \<open>Grid[0][0] = (90, 0.1, 90, 0.1)\<close>, all 9 cells
  populated, every unit Done and none Failed.
\<close>

theorem grid_cell_is_task_result:
  assumes "run_notebook exec nb sch ws = Some (Inr (nb', sch', ws'))"
    and "length (strike_vals nb) = n_strikes nb" and "length (sigma_vals nb) = n_sigmas nb"
    and "\<forall>u\<ge>next_id sch. table sch u = None"
    and "i < n_strikes nb" and "j < n_sigmas nb"
  shows "\<exists>arr v. prices nb' = Some arr \<and> grid_get arr i j = Inr (Some v) \<and>
           exec (next_id sch + (i * n_sigmas nb + j))
                (price nb, strike_vals nb ! i, sigma_vals nb ! j, rate nb, days nb, paths nb)
             = Inr v \<and>
           inspect sch' (next_id sch + (i * n_sigmas nb + j)) = DoneWith v"
proof -
  let ?k = "i * n_sigmas nb + j"
  from run_notebook_Inr [OF assms(1,4)] obtain rs where
    len: "length rs = length (grid_tasks nb)" and
    ex: "\<forall>k<length rs. exec (next_id sch + k) (grid_tasks nb ! k) = Inr (rs ! k) \<and>
                          table sch' (next_id sch + k) = Some (Inr (rs ! k))" and
    asm: "cell_assemble
             (nb\<lparr>async_results := Some [next_id sch ..< next_id sch + length (grid_tasks nb)],
                 results := Some rs\<rparr>) = Inr nb'"
    by blast
  have N: "length (grid_tasks nb) = n_strikes nb * n_sigmas nb"
    by (simp add: grid_tasks_def length_concat_grid assms(2,3))
  from assms(5,6) have k: "?k < length rs"
    unfolding len N by (rule grid_index_less)
  have task: "grid_tasks nb ! ?k =
      (price nb, strike_vals nb ! i, sigma_vals nb ! j, rate nb, days nb, paths nb)"
    using nth_concat_grid [of i "strike_vals nb" j "sigma_vals nb"
        "\<lambda>strike sigma. (price nb, strike, sigma, rate nb, days nb, paths nb)"]
      assms(2,3,5,6)
    by (simp add: grid_tasks_def)
  from cell_assemble_data [OF asm] obtain arr where arr:
    "prices nb' = Some arr" "shape arr = [n_strikes nb, n_sigmas nb]"
    "\<forall>m<length rs. data arr ! m = Some (rs ! m)"
    by auto
  from arr(2,3) k assms(5,6) have "grid_get arr i j = Inr (Some (rs ! ?k))"
    by (simp add: grid_get_def)
  moreover from ex k task have
    "exec (next_id sch + ?k)
       (price nb, strike_vals nb ! i, sigma_vals nb ! j, rate nb, days nb, paths nb) = Inr (rs ! ?k)"
    by auto
  moreover from ex k have "inspect sch' (next_id sch + ?k) = DoneWith (rs ! ?k)"
    by (simp add: inspect_def)
  ultimately show ?thesis using arr(1) by blast
qed

theorem grid_cell_is_task_result_witness:
  "assembled_grid
     (run_notebook stub_pricing scenario_notebook two_workers [0, 1, 1, 0, 1, 0, 0, 1, 0])
   = Some \<lparr>data = [Some (90, 1/10, 90, 1/10), Some (90, 1/4, 90, 1/4), Some (90, 2/5, 90, 2/5),
                   Some (100, 1/10, 100, 1/10), Some (100, 1/4, 100, 1/4),
                   Some (100, 2/5, 100, 2/5),
                   Some (110, 1/10, 110, 1/10), Some (110, 1/4, 110, 1/4),
                   Some (110, 2/5, 110, 2/5)],
            shape = [3, 3]\<rparr>
   \<and> grid_get \<lparr>data = [Some (90, 1/10, 90, 1/10), Some (90, 1/4, 90, 1/4), Some (90, 2/5, 90, 2/5),
                   Some (100, 1/10, 100, 1/10), Some (100, 1/4, 100, 1/4),
                   Some (100, 2/5, 100, 2/5),
                   Some (110, 1/10, 110, 1/10), Some (110, 1/4, 110, 1/4),
                   Some (110, 2/5, 110, 2/5::real)],
            shape = [3, 3]\<rparr> 0 0 = Inr (Some (90, 1/10, 90, 1/10))
   \<and> final_statuses
       (run_notebook stub_pricing scenario_notebook two_workers [0, 1, 1, 0, 1, 0, 0, 1, 0])
       [0, 1, 2, 3, 4, 5, 6, 7, 8]
     = Some [Some Done, Some Done, Some Done, Some Done, Some Done, Some Done, Some Done,
             Some Done, Some Done]"
proof -
  let ?r = "run_notebook stub_pricing scenario_notebook two_workers [0, 1, 1, 0, 1, 0, 0, 1, 0]"
  let ?g = "\<lparr>data = [Some (90, 1/10, 90, 1/10), Some (90, 1/4, 90, 1/4), Some (90, 2/5, 90, 2/5),
                   Some (100, 1/10, 100, 1/10), Some (100, 1/4, 100, 1/4),
                   Some (100, 2/5, 100, 2/5),
                   Some (110, 1/10, 110, 1/10), Some (110, 1/4, 110, 1/4),
                   Some (110, 2/5, 110, 2/5::real)],
            shape = [3, 3]\<rparr>"
  have g: "assembled_grid ?r = Some ?g"
    by code_simp
  have st: "final_statuses ?r [0, 1, 2, 3, 4, 5, 6, 7, 8]
     = Some [Some Done, Some Done, Some Done, Some Done, Some Done, Some Done, Some Done,
             Some Done, Some Done]"
    by code_simp
  from g obtain nb' sch' ws' where run: "?r = Some (Inr (nb', sch', ws'))" and
    p: "prices nb' = Some ?g"
    by (auto simp: assembled_grid_def split: option.splits sum.splits)
  have h: "length (strike_vals scenario_notebook) = n_strikes scenario_notebook"
    "length (sigma_vals scenario_notebook) = n_sigmas scenario_notebook"
    "\<forall>u\<ge>next_id (two_workers :: (real pyval \<times> real \<times> real \<times> real \<times> int \<times> int, real \<times> real \<times> real \<times> real) scheduler).
        table (two_workers :: (real pyval \<times> real \<times> real \<times> real \<times> int \<times> int, real \<times> real \<times> real \<times> real) scheduler) u = None"
    "0 < n_strikes scenario_notebook" "0 < n_sigmas scenario_notebook"
    by (simp_all add: scenario_notebook_def two_workers_def)
  from grid_cell_is_task_result [OF run h] p
  have "grid_get ?g 0 0 = Inr (Some (90, 1/10, 90, 1/10))"
    by (auto simp: stub_pricing_def scenario_notebook_def two_workers_def)
  with g st show ?thesis by blast
qed

section \<open>Invariants of the scheduler\<close>

lemma set_status_other: "v \<noteq> u \<Longrightarrow> set_status u st m v = m v"
  by (simp add: set_status_def split: option.splits)

lemma set_status_same:
  "set_status u st m u = map_option (\<lambda>wu. wu\<lparr>status := st\<rparr>) (m u)"
  by (simp add: set_status_def split: option.splits)

lemma terminal_assign: "terminal (assign w u sch) v \<Longrightarrow> terminal sch v"
  by (cases "v = u")
    (auto simp: terminal_def assign_def set_status_other set_status_same split: option.splits)

lemma terminal_pending_update: "terminal (sch\<lparr>pending := q\<rparr>) v = terminal sch v"
  by (simp add: terminal_def)

lemma terminal_dispatch_from: "terminal (dispatch_from q sch) v \<Longrightarrow> terminal sch v"
proof (induction q arbitrary: sch)
  case Nil
  then show ?case by (simp add: terminal_pending_update)
next
  case (Cons u q)
  show ?case
  proof (cases "acquire_idle (workers sch)")
    case None
    with Cons.prems show ?thesis by (simp add: terminal_pending_update)
  next
    case (Some wk)
    with Cons.prems have "terminal (dispatch_from q (assign (wid wk) u sch)) v" by simp
    then have "terminal (assign (wid wk) u sch) v" by (rule Cons.IH)
    then show ?thesis by (rule terminal_assign)
  qed
qed

lemma terminal_dispatch_loop: "terminal (dispatch_loop sch) v \<Longrightarrow> terminal sch v"
  unfolding dispatch_loop_def by (rule terminal_dispatch_from)

lemma terminal_on_worker_result:
  assumes "terminal (on_worker_result w u outcome sch) v"
  shows "v = u \<or> terminal sch v"
proof (cases "v = u")
  case True
  then show ?thesis by simp
next
  case False
  let ?sch1 = "sch\<lparr>units := set_status u (case outcome of Inl e \<Rightarrow> Failed | Inr v \<Rightarrow> Done)
                                 (units sch),
                     workers := release w (workers sch),
                     table := (table sch)(u \<mapsto> recorded outcome)\<rparr>"
  have 1: "terminal ?sch1 v = terminal sch v"
    using False by (simp add: terminal_def set_status_other)
  have "terminal ?sch1 v"
  proof (cases "pending sch")
    case Nil
    with assms show ?thesis by (simp add: on_worker_result_def Let_def)
  next
    case (Cons u' q)
    with assms have "terminal (assign w u' (?sch1\<lparr>pending := q\<rparr>)) v"
      by (simp add: on_worker_result_def Let_def)
    then have "terminal (?sch1\<lparr>pending := q\<rparr>) v" by (rule terminal_assign)
    then show ?thesis by (simp add: terminal_def)
  qed
  with 1 show ?thesis by simp
qed

lemma worker_finish_done_recorded:
  assumes "done_recorded A sch"
  shows "done_recorded A (worker_finish exec w sch)"
proof -
  from worker_finish_cases [of exec w sch] show ?thesis
  proof
    assume "worker_finish exec w sch = sch"
    with assms show ?thesis by simp
  next
    assume "\<exists>u wu. units sch u = Some wu \<and>
      worker_finish exec w sch = on_worker_result w u (exec u (params wu)) sch"
    then obtain u wu where "units sch u = Some wu" and
      e: "worker_finish exec w sch = on_worker_result w u (exec u (params wu)) sch"
      by blast
    show ?thesis
      unfolding done_recorded_def e
    proof (intro ballI impI)
      fix v
      assume v: "v \<in> A" and t: "terminal (on_worker_result w u (exec u (params wu)) sch) v"
      from terminal_on_worker_result [OF t] assms v
      show "table (on_worker_result w u (exec u (params wu)) sch) v \<noteq> None"
        by (auto simp: on_worker_result_fields done_recorded_def)
    qed
  qed
qed

lemma step_done_recorded:
  assumes "done_recorded A sch"
  shows "done_recorded A (step exec w sch)"
proof -
  from assms have "done_recorded A (dispatch_loop sch)"
    by (auto simp: done_recorded_def dispatch_loop_fields dest: terminal_dispatch_loop)
  then show ?thesis unfolding step_def by (rule worker_finish_done_recorded)
qed

lemma fold_step_done_recorded:
  "done_recorded A sch \<Longrightarrow> done_recorded A (fold (step exec) ws sch)"
  by (induction ws arbitrary: sch) (simp_all add: step_done_recorded)

lemma wait_loop_done_recorded:
  assumes "wait_loop exec hs sch ws = Some (sch', ws')" and "done_recorded A sch"
  shows "done_recorded A sch'"
  using wait_loop_Some [OF assms(1)] fold_step_done_recorded [OF assms(2)] by blast

lemma find_uid_None: "v \<notin> uid ` set us \<Longrightarrow> find (\<lambda>u. uid u = v) us = None"
  by (auto simp: find_None_iff)

lemma submit_units_fold:
  "distinct (map uid us) \<Longrightarrow>
     fold (\<lambda>u m. m(uid u \<mapsto> u\<lparr>status := Pending\<rparr>)) us m v =
       (case find (\<lambda>u. uid u = v) us of None \<Rightarrow> m v | Some u \<Rightarrow> Some (u\<lparr>status := Pending\<rparr>))"
proof (induction us arbitrary: m)
  case Nil
  then show ?case by simp
next
  case (Cons u us)
  from Cons.prems have d: "distinct (map uid us)" and n: "uid u \<notin> uid ` set us" by simp_all
  let ?f = "\<lambda>u m. m(uid u \<mapsto> u\<lparr>status := Pending\<rparr>)"
  have "fold ?f (u # us) m v = fold ?f us (m(uid u \<mapsto> u\<lparr>status := Pending\<rparr>)) v"
    by (simp only: fold_simps)
  also have "\<dots> = (case find (\<lambda>u. uid u = v) us of
                      None \<Rightarrow> (m(uid u \<mapsto> u\<lparr>status := Pending\<rparr>)) v
                    | Some u \<Rightarrow> Some (u\<lparr>status := Pending\<rparr>))"
    by (rule Cons.IH [OF d])
  finally have eq: "fold ?f (u # us) m v = (case find (\<lambda>u. uid u = v) us of
                      None \<Rightarrow> (m(uid u \<mapsto> u\<lparr>status := Pending\<rparr>)) v
                    | Some u \<Rightarrow> Some (u\<lparr>status := Pending\<rparr>))" .
  show ?case
  proof (cases "uid u = v")
    case True
    with n have "find (\<lambda>u. uid u = v) us = None" by (intro find_uid_None) simp
    with True show ?thesis unfolding eq by simp
  next
    case False
    then show ?thesis unfolding eq by (auto split: option.splits)
  qed
qed

lemma submit_Inr:
  assumes "submit sch us = Inr (hs, sch')"
  shows "hs = map uid us" "distinct hs" "\<forall>u\<in>set us. units sch (uid u) = None"
    "pending sch' = pending sch @ hs" "workers sch' = workers sch" "table sch' = table sch"
    "next_id sch' = next_id sch"
    "\<forall>u\<in>set us. units sch' (uid u) = Some (u\<lparr>status := Pending\<rparr>)"
    "\<forall>v. v \<notin> set hs \<longrightarrow> units sch' v = units sch v"
proof -
  from assms have d: "distinct (map uid us)" and
    f: "list_all (\<lambda>u. units sch (uid u) = None) us" and hs: "hs = map uid us" and
    s: "sch' = sch\<lparr>units := fold (\<lambda>u m. m(uid u \<mapsto> u\<lparr>status := Pending\<rparr>)) us (units sch),
                    pending := pending sch @ map uid us\<rparr>"
    by (auto simp: submit_def split: if_splits)
  show "hs = map uid us" by (rule hs)
  show "distinct hs" using d hs by simp
  show "\<forall>u\<in>set us. units sch (uid u) = None" using f by (simp add: list_all_iff)
  show "pending sch' = pending sch @ hs" "workers sch' = workers sch" "table sch' = table sch"
    "next_id sch' = next_id sch"
    by (simp_all add: s hs)
  show "\<forall>u\<in>set us. units sch' (uid u) = Some (u\<lparr>status := Pending\<rparr>)"
  proof
    fix u assume u: "u \<in> set us"
    with d have "find (\<lambda>x. uid x = uid u) us = Some u"
    proof (induction us)
      case Nil
      then show ?case by simp
    next
      case (Cons a us)
      then show ?case by (auto simp: image_iff)
    qed
    then show "units sch' (uid u) = Some (u\<lparr>status := Pending\<rparr>)"
      by (simp add: s submit_units_fold [OF d])
  qed
  show "\<forall>v. v \<notin> set hs \<longrightarrow> units sch' v = units sch v"
  proof (intro allI impI)
    fix v assume "v \<notin> set hs"
    then have "find (\<lambda>u. uid u = v) us = None"
      by (auto simp: hs find_None_iff)
    then show "units sch' v = units sch v"
      by (simp add: s submit_units_fold [OF d])
  qed
qed

lemma wait_loop_returns:
  "n \<le> length ws \<Longrightarrow> list_all (terminal (fold (step exec) (take n ws) sch)) hs \<Longrightarrow>
     wait_loop exec hs sch ws \<noteq> None"
proof (induction ws arbitrary: sch n)
  case Nil
  then show ?case by simp
next
  case (Cons w ws)
  show ?case
  proof (cases "list_all (terminal sch) hs")
    case True
    then show ?thesis by simp
  next
    case False
    with Cons.prems obtain n' where n': "n = Suc n'" by (cases n) auto
    with Cons.prems have "n' \<le> length ws"
      "list_all (terminal (fold (step exec) (take n' ws) (step exec w sch))) hs"
      by simp_all
    from Cons.IH [OF this] False show ?thesis by simp
  qed
qed

text \<open>
  C3. \<open>wait_all\<close> returns exactly when every handle it was given is terminal: if it returns,
  it does so in the first state along the workers' reports in which all handles are Done or
  Failed, having consumed the reports up to there and no more, so it has not returned while a
  handle was not terminal; if the reports reach a state in which all handles are terminal it
  does return; with all handles terminal already it returns at once, consuming nothing; and
  a Failed unit is terminal.
\<close>

theorem wait_all_returns_when_all_terminal:
  "(wait_all exec sch hs ws = Some (sl, sch', ws') \<longrightarrow>
      (\<exists>n\<le>length ws. sch' = fold (step exec) (take n ws) sch \<and> ws' = drop n ws \<and>
          sl = table sch' |` set hs \<and> list_all (terminal sch') hs \<and>
          (\<forall>m<n. \<not> list_all (terminal (fold (step exec) (take m ws) sch)) hs)))
   \<and> (n \<le> length ws \<and> list_all (terminal (fold (step exec) (take n ws) sch)) hs \<longrightarrow>
        wait_all exec sch hs ws \<noteq> None)
   \<and> (list_all (terminal sch) hs \<longrightarrow>
        wait_all exec sch hs ws = Some (table sch |` set hs, sch, ws))
   \<and> (units sch h = Some wu \<and> status wu = Failed \<longrightarrow> terminal sch h)"
proof (intro conjI impI)
  assume w: "wait_all exec sch hs ws = Some (sl, sch', ws')"
  then have l: "wait_loop exec hs sch ws = Some (sch', ws')" and sl: "sl = table sch' |` set hs"
    by (auto simp: wait_all_def split: option.splits)
  from wait_loop_Some [OF l] sl
  show "\<exists>n\<le>length ws. sch' = fold (step exec) (take n ws) sch \<and> ws' = drop n ws \<and>
          sl = table sch' |` set hs \<and> list_all (terminal sch') hs \<and>
          (\<forall>m<n. \<not> list_all (terminal (fold (step exec) (take m ws) sch)) hs)"
    by blast
next
  assume "n \<le> length ws \<and> list_all (terminal (fold (step exec) (take n ws) sch)) hs"
  then have "wait_loop exec hs sch ws \<noteq> None"
    by (intro wait_loop_returns [of n]) simp_all
  then show "wait_all exec sch hs ws \<noteq> None"
    by (auto simp: wait_all_def split: option.splits)
next
  assume "list_all (terminal sch) hs"
  then have "wait_loop exec hs sch ws = Some (sch, ws)" by (cases ws) simp_all
  then show "wait_all exec sch hs ws = Some (table sch |` set hs, sch, ws)"
    by (simp add: wait_all_def)
next
  assume "units sch h = Some wu \<and> status wu = Failed"
  then show "terminal sch h" by (simp add: terminal_def)
qed

theorem wait_all_returns_when_all_terminal_witness:
  "waited (wait_all failing_pricing (enqueue_all (grid_tasks scenario_notebook) two_workers)
             [0, 1, 2, 3, 4, 5, 6, 7, 8] [0, 1, 1, 0, 1, 0, 0, 1, 0, 1, 1])
          [0, 1, 2, 3, 4, 5, 6, 7, 8]
   = Some ([1, 1],
           [Some Done, Some Done, Some Done, Some Done, Some Failed, Some Done, Some Done,
            Some Done, Some Done],
           [Some (Inr (90, 1/10, 90, 1/10)), Some (Inr (90, 1/4, 90, 1/4)),
            Some (Inr (90, 2/5, 90, 2/5)), Some (Inr (100, 1/10, 100, 1/10)),
            Some (Inl (WorkerExecutionError ValueError)), Some (Inr (100, 2/5, 100, 2/5)),
            Some (Inr (110, 1/10, 110, 1/10)), Some (Inr (110, 1/4, 110, 1/4)),
            Some (Inr (110, 2/5, 110, 2/5))])
   \<and> waited (wait_all failing_pricing (enqueue_all (grid_tasks scenario_notebook) two_workers)
             [0, 1, 2, 3, 4, 5, 6, 7, 8] [0, 1, 1, 0, 1, 0, 0, 1])
          [0, 1, 2, 3, 4, 5, 6, 7, 8] = None
   \<and> list_all (terminal (fold (step failing_pricing) (take 9 [0, 1, 1, 0, 1, 0, 0, 1, 0, 1, 1])
                 (enqueue_all (grid_tasks scenario_notebook) two_workers)))
        [0, 1, 2, 3, 4, 5, 6, 7, 8]
   \<and> wait_all failing_pricing (enqueue_all (grid_tasks scenario_notebook) two_workers)
        [0, 1, 2, 3, 4, 5, 6, 7, 8] [0, 1, 1, 0, 1, 0, 0, 1, 0, 1, 1] \<noteq> None
   \<and> terminal (fold (step failing_pricing) [0, 1, 1, 0, 1, 0, 0, 1, 0]
                 (enqueue_all (grid_tasks scenario_notebook) two_workers)) 4"
proof -
  let ?S = "enqueue_all (grid_tasks scenario_notebook) two_workers ::
    (real pyval \<times> real \<times> real \<times> real \<times> int \<times> int, real \<times> real \<times> real \<times> real) scheduler"
  let ?hs = "[0, 1, 2, 3, 4, 5, 6, 7, 8] :: nat list"
  let ?ws = "[0, 1, 1, 0, 1, 0, 0, 1, 0, 1, 1] :: nat list"
  let ?S9 = "fold (step failing_pricing) [0, 1, 1, 0, 1, 0, 0, 1, 0] ?S"
  have a: "waited (wait_all failing_pricing ?S ?hs ?ws) ?hs
     = Some ([1, 1],
           [Some Done, Some Done, Some Done, Some Done, Some Failed, Some Done, Some Done,
            Some Done, Some Done],
           [Some (Inr (90, 1/10, 90, 1/10)), Some (Inr (90, 1/4, 90, 1/4)),
            Some (Inr (90, 2/5, 90, 2/5)), Some (Inr (100, 1/10, 100, 1/10)),
            Some (Inl (WorkerExecutionError ValueError)), Some (Inr (100, 2/5, 100, 2/5)),
            Some (Inr (110, 1/10, 110, 1/10)), Some (Inr (110, 1/4, 110, 1/4)),
            Some (Inr (110, 2/5, 110, 2/5))])"
    by code_simp
  have b: "waited (wait_all failing_pricing ?S ?hs [0, 1, 1, 0, 1, 0, 0, 1]) ?hs = None"
    by code_simp
  have c: "9 \<le> length ?ws \<and> list_all (terminal (fold (step failing_pricing) (take 9 ?ws) ?S)) ?hs"
    by code_simp
  have d: "map_option status (units ?S9 4) = Some Failed"
    by code_simp
  then obtain wu where wu: "units ?S9 4 = Some wu \<and> status wu = Failed" by auto
  note T = wait_all_returns_when_all_terminal
  from c T [where exec = failing_pricing and sch = ?S and hs = ?hs and ws = ?ws and n = 9]
  have e: "wait_all failing_pricing ?S ?hs ?ws \<noteq> None" by blast
  from wu T [where sch = ?S9 and h = 4 and wu = wu]
  have f: "terminal ?S9 4" by blast
  from a b c e f show ?thesis by simp
qed

lemma apply_async_fresh:
  assumes "units sch (next_id sch) = None"
  shows "apply_async sch p = Inr (next_id sch, enqueue_all [p] sch)"
proof -
  from assms obtain h sch' where "apply_async sch p = Inr (h, sch')"
    by (simp add: apply_async_def submit_def)
  with apply_async_Inr [OF this] show ?thesis by simp
qed

lemma enqueue_all_fresh:
  "\<forall>u\<ge>next_id sch. units sch u = None \<Longrightarrow>
     \<forall>u\<ge>next_id (enqueue_all ps sch). units (enqueue_all ps sch) u = None"
  by (simp add: enqueue_all_fields)

lemma submit_sigmas_fresh:
  "\<forall>u\<ge>next_id sch. units sch u = None \<Longrightarrow>
     \<exists>ars' sch'. submit_sigmas nb strike sigmas (ars, sch) = Inr (ars', sch')"
proof (induction sigmas arbitrary: ars sch)
  case Nil
  then show ?case by simp
next
  case (Cons sigma sigmas)
  let ?p = "(price nb, strike, sigma, rate nb, days nb, paths nb)"
  from Cons.prems have a: "apply_async sch ?p = Inr (next_id sch, enqueue_all [?p] sch)"
    by (intro apply_async_fresh) simp
  from Cons.prems have "\<forall>u\<ge>next_id (enqueue_all [?p] sch). units (enqueue_all [?p] sch) u = None"
    by (rule enqueue_all_fresh)
  from Cons.IH [OF this, of "ars @ [next_id sch]"] a show ?case by simp
qed

lemma submit_strikes_fresh:
  "\<forall>u\<ge>next_id sch. units sch u = None \<Longrightarrow>
     \<exists>ars' sch'. submit_strikes nb strikes (ars, sch) = Inr (ars', sch')"
proof (induction strikes arbitrary: ars sch)
  case Nil
  then show ?case by simp
next
  case (Cons strike strikes)
  from submit_sigmas_fresh [OF Cons.prems, of nb strike "sigma_vals nb" ars] obtain ars1 sch1
    where a: "submit_sigmas nb strike (sigma_vals nb) (ars, sch) = Inr (ars1, sch1)" by blast
  from submit_sigmas_Inr [OF a] Cons.prems have "\<forall>u\<ge>next_id sch1. units sch1 u = None"
    by (simp add: enqueue_all_fields)
  from Cons.IH [OF this, of ars1] a show ?case by simp
qed

text \<open>
  C5. \<open>submit\<close> of units with unique ids returns one handle per unit and appends the units
  to the PendingQueue in submission order. It is a function of the scheduler and the units
  alone: it needs no report of a worker, and leaves the workers and the ResultTable as they
  are, every unit Pending. The notebook's loops submit the tasks in row-major Cartesian
  order, strike outside and volatility inside: unit \<open>i * n_sigmas + j\<close> of the run carries
  \<open>(strike_vals[i], sigma_vals[j])\<close>.
\<close>

theorem submit_enqueues_in_order:
  "(distinct (map uid us) \<and> list_all (\<lambda>u. units sch (uid u) = None) us \<longrightarrow>
      (\<exists>sch'. submit sch us = Inr (map uid us, sch') \<and> length (map uid us) = length us \<and>
         pending sch' = pending sch @ map uid us \<and>
         workers sch' = workers sch \<and> table sch' = table sch \<and>
         list_all (\<lambda>u. units sch' (uid u) = Some (u\<lparr>status := Pending\<rparr>)) us))
   \<and> ((\<forall>u\<ge>next_id sch0. units sch0 u = None) \<longrightarrow>
        submit_strikes nb (strike_vals nb) ([], sch0) =
          Inr ([next_id sch0 ..< next_id sch0 + length (strike_vals nb) * length (sigma_vals nb)],
               enqueue_all (grid_tasks nb) sch0) \<and>
        pending (enqueue_all (grid_tasks nb) sch0) =
          pending sch0 @
            [next_id sch0 ..< next_id sch0 + length (strike_vals nb) * length (sigma_vals nb)] \<and>
        (\<forall>i<length (strike_vals nb). \<forall>j<length (sigma_vals nb).
            units (enqueue_all (grid_tasks nb) sch0)
              (next_id sch0 + (i * length (sigma_vals nb) + j)) =
            Some \<lparr>uid = next_id sch0 + (i * length (sigma_vals nb) + j),
                  params = (price nb, strike_vals nb ! i, sigma_vals nb ! j,
                            rate nb, days nb, paths nb),
                  status = Pending\<rparr>))"
proof (intro conjI impI)
  assume a: "distinct (map uid us) \<and> list_all (\<lambda>u. units sch (uid u) = None) us"
  then obtain sch' where s: "submit sch us = Inr (map uid us, sch')"
    by (simp add: submit_def)
  from submit_Inr [OF s] have
    "pending sch' = pending sch @ map uid us" "workers sch' = workers sch"
    "table sch' = table sch"
    "list_all (\<lambda>u. units sch' (uid u) = Some (u\<lparr>status := Pending\<rparr>)) us"
    by (simp_all add: list_all_iff)
  with s show "\<exists>sch'. submit sch us = Inr (map uid us, sch') \<and> length (map uid us) = length us \<and>
         pending sch' = pending sch @ map uid us \<and>
         workers sch' = workers sch \<and> table sch' = table sch \<and>
         list_all (\<lambda>u. units sch' (uid u) = Some (u\<lparr>status := Pending\<rparr>)) us"
    by simp
next
  have N: "length (grid_tasks nb) = length (strike_vals nb) * length (sigma_vals nb)"
    by (simp add: grid_tasks_def length_concat_grid)
  {
    assume f: "\<forall>u\<ge>next_id sch0. units sch0 u = None"
    from submit_strikes_fresh [OF f, of nb "strike_vals nb" "[]"] obtain ars sch1 where
      s: "submit_strikes nb (strike_vals nb) ([], sch0) = Inr (ars, sch1)" by blast
    from submit_strikes_Inr [OF s] s
    show "submit_strikes nb (strike_vals nb) ([], sch0) =
          Inr ([next_id sch0 ..< next_id sch0 + length (strike_vals nb) * length (sigma_vals nb)],
               enqueue_all (grid_tasks nb) sch0)"
      by (simp add: grid_tasks_def length_concat_grid)
  }
  show "pending (enqueue_all (grid_tasks nb) sch0) =
          pending sch0 @
            [next_id sch0 ..< next_id sch0 + length (strike_vals nb) * length (sigma_vals nb)]"
    by (simp add: enqueue_all_fields N)
  show "\<forall>i<length (strike_vals nb). \<forall>j<length (sigma_vals nb).
            units (enqueue_all (grid_tasks nb) sch0)
              (next_id sch0 + (i * length (sigma_vals nb) + j)) =
            Some \<lparr>uid = next_id sch0 + (i * length (sigma_vals nb) + j),
                  params = (price nb, strike_vals nb ! i, sigma_vals nb ! j,
                            rate nb, days nb, paths nb),
                  status = Pending\<rparr>"
  proof (intro allI impI)
    fix i j assume i: "i < length (strike_vals nb)" and j: "j < length (sigma_vals nb)"
    then have k: "i * length (sigma_vals nb) + j < length (grid_tasks nb)"
      unfolding N by (rule grid_index_less)
    have "grid_tasks nb ! (i * length (sigma_vals nb) + j) =
        (price nb, strike_vals nb ! i, sigma_vals nb ! j, rate nb, days nb, paths nb)"
      using nth_concat_grid [OF i j,
          of "\<lambda>strike sigma. (price nb, strike, sigma, rate nb, days nb, paths nb)"]
      by (simp add: grid_tasks_def)
    with k show "units (enqueue_all (grid_tasks nb) sch0)
              (next_id sch0 + (i * length (sigma_vals nb) + j)) =
            Some \<lparr>uid = next_id sch0 + (i * length (sigma_vals nb) + j),
                  params = (price nb, strike_vals nb ! i, sigma_vals nb ! j,
                            rate nb, days nb, paths nb),
                  status = Pending\<rparr>"
      by (simp add: enqueue_all_fields)
  qed
qed

theorem submit_enqueues_in_order_witness:
  "(\<exists>sch'. submit (two_workers :: (unit, unit) scheduler)
              [\<lparr>uid = 7, params = (), status = Pending\<rparr>, \<lparr>uid = 3, params = (), status = Pending\<rparr>]
            = Inr ([7, 3], sch') \<and>
          pending sch' = [7, 3] \<and> workers sch' = workers (two_workers :: (unit, unit) scheduler))
   \<and> submit_strikes scenario_notebook [90, 100, 110]
        ([], two_workers :: (real pyval \<times> real \<times> real \<times> real \<times> int \<times> int,
                             real \<times> real \<times> real \<times> real) scheduler)
      = Inr ([0, 1, 2, 3, 4, 5, 6, 7, 8], enqueue_all (grid_tasks scenario_notebook) two_workers)
   \<and> pending (enqueue_all (grid_tasks scenario_notebook)
        (two_workers :: (real pyval \<times> real \<times> real \<times> real \<times> int \<times> int,
                             real \<times> real \<times> real \<times> real) scheduler))
      = [0, 1, 2, 3, 4, 5, 6, 7, 8]
   \<and> map (\<lambda>h. map_option params (units (enqueue_all (grid_tasks scenario_notebook)
        (two_workers :: (real pyval \<times> real \<times> real \<times> real \<times> int \<times> int,
                             real \<times> real \<times> real \<times> real) scheduler)) h)) [0, 1, 2, 3]
      = [Some (PyFloat 100, 90, 1/10, 1/20, 260, 10000),
         Some (PyFloat 100, 90, 1/4, 1/20, 260, 10000),
         Some (PyFloat 100, 90, 2/5, 1/20, 260, 10000),
         Some (PyFloat 100, 100, 1/10, 1/20, 260, 10000)]"
proof -
  let ?W = "two_workers :: (real pyval \<times> real \<times> real \<times> real \<times> int \<times> int,
                             real \<times> real \<times> real \<times> real) scheduler"
  let ?us = "[\<lparr>uid = 7, params = (), status = Pending\<rparr>, \<lparr>uid = 3, params = (), status = Pending\<rparr>]"
  note T = submit_enqueues_in_order
  have h1: "distinct (map uid ?us) \<and>
      list_all (\<lambda>u. units (two_workers :: (unit, unit) scheduler) (uid u) = None) ?us"
    by (simp add: two_workers_def)
  from h1 T [where us = ?us and sch = "two_workers :: (unit, unit) scheduler", THEN conjunct1]
  have a: "\<exists>sch'. submit (two_workers :: (unit, unit) scheduler) ?us = Inr ([7, 3], sch') \<and>
          pending sch' = [7, 3] \<and> workers sch' = workers (two_workers :: (unit, unit) scheduler)"
    by (auto simp: two_workers_def)
  have h2: "\<forall>u\<ge>next_id ?W. units ?W u = None"
    by (simp add: two_workers_def)
  from h2 T [where ?sch0.0 = ?W and nb = scenario_notebook, THEN conjunct2]
  have b: "submit_strikes scenario_notebook [90, 100, 110] ([], ?W)
      = Inr ([0, 1, 2, 3, 4, 5, 6, 7, 8], enqueue_all (grid_tasks scenario_notebook) ?W)"
    by (simp add: scenario_notebook_def two_workers_def upt_rec)
  have c: "pending (enqueue_all (grid_tasks scenario_notebook) ?W) = [0, 1, 2, 3, 4, 5, 6, 7, 8]"
    by code_simp
  have d: "map (\<lambda>h. map_option params (units (enqueue_all (grid_tasks scenario_notebook) ?W) h))
             [0, 1, 2, 3]
      = [Some (PyFloat 100, 90, 1/10, 1/20, 260, 10000),
         Some (PyFloat 100, 90, 1/4, 1/20, 260, 10000),
         Some (PyFloat 100, 90, 2/5, 1/20, 260, 10000),
         Some (PyFloat 100, 100, 1/10, 1/20, 260, 10000)]"
    by code_simp
  from a b c d show ?thesis by blast
qed

lemma cell_assemble_frame:
  assumes "cell_assemble nb = Inr nb'"
  shows "async_results nb' = async_results nb \<and> results nb' = results nb"
proof -
  let ?nb1 = "nb\<lparr>prices := Some (np_empty (n_strikes nb * n_sigmas nb))\<rparr>"
  from assms obtain rs nb2 where
    l: "assemble_loop ?nb1 0 rs = Inr nb2" and
    s: "set_shape nb2 [n_strikes nb2, n_sigmas nb2] = Inr nb'"
    by (auto simp: cell_assemble_def Let_def split: sum.splits option.splits)
  from assemble_loop_frame [OF l] set_shape_frame [OF s] show ?thesis by simp
qed

text \<open>
  C2. After \<open>N\<close> units with unique ids were submitted and \<open>wait_all\<close> returned, the slice of
  the ResultTable has exactly one entry per submitted id: its domain is the set of the
  ids, of cardinality \<open>N\<close>. In the notebook's run \<open>N = n_strikes * n_sigmas\<close>, and the
  result list and the assembled array have exactly that many cells.
\<close>

theorem result_table_has_one_entry_per_unit:
  "(submit sch us = Inr (hs, sch1) \<and> wait_all exec sch1 hs ws = Some (sl, sch2, ws') \<longrightarrow>
      dom sl = uid ` set us \<and> card (dom sl) = length us \<and>
      distinct hs \<and> length hs = length us \<and> list_all (\<lambda>h. sl h = table sch2 h) hs)
   \<and> (run_notebook pricing nb schI ws1 = Some (Inr (nb', schF, wsF)) \<and>
       length (strike_vals nb) = n_strikes nb \<and> length (sigma_vals nb) = n_sigmas nb \<and>
       (\<forall>u\<ge>next_id schI. table schI u = None) \<longrightarrow>
        (\<exists>ars rs arr. async_results nb' = Some ars \<and> distinct ars \<and>
           length ars = n_strikes nb * n_sigmas nb \<and>
           dom (table schF |` set ars) = set ars \<and>
           results nb' = Some rs \<and> length rs = n_strikes nb * n_sigmas nb \<and>
           prices nb' = Some arr \<and> length (data arr) = n_strikes nb * n_sigmas nb \<and>
           shape arr = [n_strikes nb, n_sigmas nb]))"
proof (intro conjI impI)
  assume a: "submit sch us = Inr (hs, sch1) \<and> wait_all exec sch1 hs ws = Some (sl, sch2, ws')"
  then have s: "submit sch us = Inr (hs, sch1)" and
    l: "wait_loop exec hs sch1 ws = Some (sch2, ws')" and sl: "sl = table sch2 |` set hs"
    by (auto simp: wait_all_def split: option.splits)
  note S = submit_Inr [OF s]
  have "done_recorded (set hs) sch1"
    unfolding done_recorded_def
  proof (intro ballI impI)
    fix u assume "u \<in> set hs" and t: "terminal sch1 u"
    then obtain x where "x \<in> set us" "u = uid x" using S(1) by auto
    with S(8) have "units sch1 u = Some (x\<lparr>status := Pending\<rparr>)" by simp
    with t show "table sch1 u \<noteq> None" by (simp add: terminal_def)
  qed
  from wait_loop_done_recorded [OF l this] have dr: "done_recorded (set hs) sch2" .
  from wait_loop_Some [OF l] have allt: "list_all (terminal sch2) hs" by blast
  have "set hs \<subseteq> dom (table sch2)"
    using dr allt by (auto simp: done_recorded_def list_all_iff)
  then have d: "dom sl = set hs" unfolding sl by auto
  with S(1) show "dom sl = uid ` set us" by simp
  from d S(2) have "card (dom sl) = length hs" by (simp add: distinct_card)
  with S(1) show "card (dom sl) = length us" by simp
  show "distinct hs" by (rule S(2))
  show "length hs = length us" using S(1) by simp
  show "list_all (\<lambda>h. sl h = table sch2 h) hs" unfolding sl by (simp add: list_all_iff)
next
  assume a: "run_notebook pricing nb schI ws1 = Some (Inr (nb', schF, wsF)) \<and>
       length (strike_vals nb) = n_strikes nb \<and> length (sigma_vals nb) = n_sigmas nb \<and>
       (\<forall>u\<ge>next_id schI. table schI u = None)"
  then have run: "run_notebook pricing nb schI ws1 = Some (Inr (nb', schF, wsF))" and
    fresh: "\<forall>u\<ge>next_id schI. table schI u = None" by simp_all
  have N: "length (grid_tasks nb) = n_strikes nb * n_sigmas nb"
    using a by (simp add: grid_tasks_def length_concat_grid)
  let ?ars = "[next_id schI ..< next_id schI + length (grid_tasks nb)]"
  from run_notebook_Inr [OF run fresh] obtain rs where
    len: "length rs = length (grid_tasks nb)" and
    ex: "\<forall>k<length rs. pricing (next_id schI + k) (grid_tasks nb ! k) = Inr (rs ! k) \<and>
                          table schF (next_id schI + k) = Some (Inr (rs ! k))" and
    asm: "cell_assemble (nb\<lparr>async_results := Some ?ars, results := Some rs\<rparr>) = Inr nb'"
    by blast
  from cell_assemble_frame [OF asm] have
    f: "async_results nb' = Some ?ars" "results nb' = Some rs" by simp_all
  from cell_assemble_data [OF asm] obtain arr where arr:
    "prices nb' = Some arr" "shape arr = [n_strikes nb, n_sigmas nb]"
    "length (data arr) = n_strikes nb * n_sigmas nb"
    by auto
  have "set ?ars \<subseteq> dom (table schF)"
  proof
    fix u assume "u \<in> set ?ars"
    then obtain k where "u = next_id schI + k" "k < length rs"
      unfolding len by (auto simp: le_iff_add)
    with ex show "u \<in> dom (table schF)" by auto
  qed
  then have "dom (table schF |` set ?ars) = set ?ars" by auto
  with f arr len N show "\<exists>ars rs arr. async_results nb' = Some ars \<and> distinct ars \<and>
           length ars = n_strikes nb * n_sigmas nb \<and>
           dom (table schF |` set ars) = set ars \<and>
           results nb' = Some rs \<and> length rs = n_strikes nb * n_sigmas nb \<and>
           prices nb' = Some arr \<and> length (data arr) = n_strikes nb * n_sigmas nb \<and>
           shape arr = [n_strikes nb, n_sigmas nb]"
    by (intro exI [of _ ?ars] exI [of _ rs] exI [of _ arr]) simp
qed

theorem result_table_has_one_entry_per_unit_witness:
  "(\<exists>sl sch2 rest.
      submit_and_wait stub_pricing two_workers
        [\<lparr>uid = 5, params = (PyFloat 100, 90, 1/10, 1/20, 260, 10000), status = Pending\<rparr>,
         \<lparr>uid = 2, params = (PyFloat 100, 110, 2/5, 1/20, 260, 10000), status = Pending\<rparr>]
        [0, 1] = Some (sl, sch2, rest) \<and>
      dom sl = {5, 2} \<and> card (dom sl) = 2)
   \<and> waited (submit_and_wait stub_pricing two_workers
        [\<lparr>uid = 5, params = (PyFloat 100, 90, 1/10, 1/20, 260, 10000), status = Pending\<rparr>,
         \<lparr>uid = 2, params = (PyFloat 100, 110, 2/5, 1/20, 260, 10000), status = Pending\<rparr>]
        [0, 1]) [5, 2, 0]
      = Some ([], [Some Done, Some Done, None],
              [Some (Inr (90, 1/10, 90, 1/10)), Some (Inr (110, 2/5, 110, 2/5)), None])
   \<and> (\<exists>nb1 sch1 rest ars rs arr.
        run_notebook stub_pricing scenario_notebook two_workers [0, 1, 1, 0, 1, 0, 0, 1, 0]
          = Some (Inr (nb1, sch1, rest)) \<and>
        async_results nb1 = Some ars \<and> length ars = 9 \<and> distinct ars \<and>
        dom (table sch1 |` set ars) = set ars \<and>
        results nb1 = Some rs \<and> length rs = 9 \<and>
        prices nb1 = Some arr \<and> length (data arr) = 9 \<and> shape arr = [3, 3])"
proof -
  let ?us = "[\<lparr>uid = 5, params = (PyFloat (100::real), 90::real, 1/10::real, 1/20::real,
                                  260::int, 10000::int), status = Pending\<rparr>,
         \<lparr>uid = 2, params = (PyFloat 100, 110, 2/5, 1/20, 260, 10000), status = Pending\<rparr>]"
  let ?W = "two_workers :: (real pyval \<times> real \<times> real \<times> real \<times> int \<times> int,
                             real \<times> real \<times> real \<times> real) scheduler"
  note T = result_table_has_one_entry_per_unit
  have a: "waited (submit_and_wait stub_pricing ?W ?us [0, 1]) [5, 2, 0]
      = Some ([], [Some Done, Some Done, None],
              [Some (Inr (90, 1/10, 90, 1/10)), Some (Inr (110, 2/5, 110, 2/5)), None])"
    by code_simp
  then obtain hs sch1 sl sch2 rest where
    s: "submit ?W ?us = Inr (hs, sch1)" and
    w: "wait_all stub_pricing sch1 hs [0, 1] = Some (sl, sch2, rest)"
    by (auto simp: waited_def submit_and_wait_def split: option.splits sum.splits)
  from s w have sw: "submit_and_wait stub_pricing ?W ?us [0, 1] = Some (sl, sch2, rest)"
    by (simp add: submit_and_wait_def)
  from s w T [where sch = ?W and us = ?us and hs = hs and ?sch1.0 = sch1 and exec = stub_pricing
      and ws = "[0, 1]" and sl = sl and ?sch2.0 = sch2 and ws' = rest, THEN conjunct1]
  have "dom sl = {5, 2} \<and> card (dom sl) = 2" by simp
  with sw have p1: "\<exists>sl sch2 rest.
      submit_and_wait stub_pricing ?W ?us [0, 1] = Some (sl, sch2, rest) \<and>
      dom sl = {5, 2} \<and> card (dom sl) = 2"
    by blast
  have "final_statuses
       (run_notebook stub_pricing scenario_notebook ?W [0, 1, 1, 0, 1, 0, 0, 1, 0]) [0]
     = Some [Some Done]"
    by code_simp
  then obtain nb1 schF restF where
    run: "run_notebook stub_pricing scenario_notebook ?W [0, 1, 1, 0, 1, 0, 0, 1, 0]
      = Some (Inr (nb1, schF, restF))"
    by (auto simp: final_statuses_def split: option.splits sum.splits)
  have h: "length (strike_vals scenario_notebook) = n_strikes scenario_notebook \<and>
       length (sigma_vals scenario_notebook) = n_sigmas scenario_notebook \<and>
       (\<forall>u\<ge>next_id ?W. table ?W u = None)"
    by (simp add: scenario_notebook_def two_workers_def)
  from run h T [where pricing = stub_pricing and nb = scenario_notebook and schI = ?W
      and ?ws1.0 = "[0, 1, 1, 0, 1, 0, 0, 1, 0]" and nb' = nb1 and schF = schF and wsF = restF,
      THEN conjunct2]
  have "\<exists>ars rs arr. async_results nb1 = Some ars \<and> distinct ars \<and>
           length ars = 9 \<and> dom (table schF |` set ars) = set ars \<and>
           results nb1 = Some rs \<and> length rs = 9 \<and>
           prices nb1 = Some arr \<and> length (data arr) = 9 \<and> shape arr = [3, 3]"
    by (simp add: scenario_notebook_def)
  with run have p3: "\<exists>nb1 sch1 rest ars rs arr.
        run_notebook stub_pricing scenario_notebook ?W [0, 1, 1, 0, 1, 0, 0, 1, 0]
          = Some (Inr (nb1, sch1, rest)) \<and>
        async_results nb1 = Some ars \<and> length ars = 9 \<and> distinct ars \<and>
        dom (table sch1 |` set ars) = set ars \<and>
        results nb1 = Some rs \<and> length rs = 9 \<and>
        prices nb1 = Some arr \<and> length (data arr) = 9 \<and> shape arr = [3, 3]"
    by blast
  from p1 a p3 show ?thesis by blast
qed

text \<open>
  C6. The assembled array does not depend on the order in which the results arrived: two
  runs of the notebook that differ only in the order of the workers' reports, and both
  complete, assemble the same array (and leave the same notebook state).
\<close>

theorem grid_independent_of_arrival_order:
  assumes "run_notebook exec nb sch wsA = Some (Inr (nbA, schA, restA))"
    and "run_notebook exec nb sch wsB = Some (Inr (nbB, schB, restB))"
    and "\<forall>u\<ge>next_id sch. table sch u = None"
  shows "prices nbA = prices nbB \<and> nbA = nbB"
proof -
  from run_notebook_Inr [OF assms(1,3)] obtain rsA where
    lenA: "length rsA = length (grid_tasks nb)" and
    exA: "\<forall>k<length rsA. exec (next_id sch + k) (grid_tasks nb ! k) = Inr (rsA ! k) \<and>
                          table schA (next_id sch + k) = Some (Inr (rsA ! k))" and
    asmA: "cell_assemble
             (nb\<lparr>async_results := Some [next_id sch ..< next_id sch + length (grid_tasks nb)],
                 results := Some rsA\<rparr>) = Inr nbA"
    by blast
  from run_notebook_Inr [OF assms(2,3)] obtain rsB where
    lenB: "length rsB = length (grid_tasks nb)" and
    exB: "\<forall>k<length rsB. exec (next_id sch + k) (grid_tasks nb ! k) = Inr (rsB ! k) \<and>
                          table schB (next_id sch + k) = Some (Inr (rsB ! k))" and
    asmB: "cell_assemble
             (nb\<lparr>async_results := Some [next_id sch ..< next_id sch + length (grid_tasks nb)],
                 results := Some rsB\<rparr>) = Inr nbB"
    by blast
  have "rsA = rsB"
  proof (rule nth_equalityI)
    show "length rsA = length rsB" using lenA lenB by simp
  next
    fix k assume k: "k < length rsA"
    with exA have "exec (next_id sch + k) (grid_tasks nb ! k) = Inr (rsA ! k)" by simp
    moreover from k lenA lenB exB
    have "exec (next_id sch + k) (grid_tasks nb ! k) = Inr (rsB ! k)" by simp
    ultimately show "rsA ! k = rsB ! k" by simp
  qed
  with asmA asmB have "nbA = nbB" by simp
  then show ?thesis by simp
qed

theorem grid_independent_of_arrival_order_witness:
  "assembled_grid
     (run_notebook stub_pricing scenario_notebook two_workers [0, 1, 1, 0, 1, 0, 0, 1, 0])
   = assembled_grid
     (run_notebook stub_pricing scenario_notebook two_workers [1, 0, 0, 1, 0, 1, 1, 0, 1])
   \<and> assembled_grid
     (run_notebook stub_pricing scenario_notebook two_workers [1, 0, 0, 1, 0, 1, 1, 0, 1])
     = Some \<lparr>data = [Some (90, 1/10, 90, 1/10), Some (90, 1/4, 90, 1/4), Some (90, 2/5, 90, 2/5),
                   Some (100, 1/10, 100, 1/10), Some (100, 1/4, 100, 1/4),
                   Some (100, 2/5, 100, 2/5),
                   Some (110, 1/10, 110, 1/10), Some (110, 1/4, 110, 1/4),
                   Some (110, 2/5, 110, 2/5)],
            shape = [3, 3]\<rparr>
   \<and> arrival_order stub_pricing (enqueue_all (grid_tasks scenario_notebook) two_workers)
        [0, 1, 1, 0, 1, 0, 0, 1, 0] = [0, 1, 3, 2, 4, 5, 7, 6, 8]
   \<and> arrival_order stub_pricing (enqueue_all (grid_tasks scenario_notebook) two_workers)
        [1, 0, 0, 1, 0, 1, 1, 0, 1] = [1, 0, 3, 2, 4, 5, 7, 6, 8]"
proof -
  let ?W = "two_workers :: (real pyval \<times> real \<times> real \<times> real \<times> int \<times> int,
                             real \<times> real \<times> real \<times> real) scheduler"
  let ?A = "[0, 1, 1, 0, 1, 0, 0, 1, 0] :: nat list"
  let ?B = "[1, 0, 0, 1, 0, 1, 1, 0, 1] :: nat list"
  have "final_statuses (run_notebook stub_pricing scenario_notebook ?W ?A) [0] = Some [Some Done]"
    by code_simp
  then obtain nbA schA restA where
    runA: "run_notebook stub_pricing scenario_notebook ?W ?A = Some (Inr (nbA, schA, restA))"
    by (auto simp: final_statuses_def split: option.splits sum.splits)
  have "final_statuses (run_notebook stub_pricing scenario_notebook ?W ?B) [0] = Some [Some Done]"
    by code_simp
  then obtain nbB schB restB where
    runB: "run_notebook stub_pricing scenario_notebook ?W ?B = Some (Inr (nbB, schB, restB))"
    by (auto simp: final_statuses_def split: option.splits sum.splits)
  have h: "\<forall>u\<ge>next_id ?W. table ?W u = None"
    by (simp add: two_workers_def)
  from grid_independent_of_arrival_order [OF runA runB h]
  have "prices nbA = prices nbB" by (rule conjunct1)
  then have a: "assembled_grid (run_notebook stub_pricing scenario_notebook ?W ?A)
      = assembled_grid (run_notebook stub_pricing scenario_notebook ?W ?B)"
    unfolding runA runB assembled_grid_def by simp
  have b: "assembled_grid (run_notebook stub_pricing scenario_notebook ?W ?B)
     = Some \<lparr>data = [Some (90, 1/10, 90, 1/10), Some (90, 1/4, 90, 1/4), Some (90, 2/5, 90, 2/5),
                   Some (100, 1/10, 100, 1/10), Some (100, 1/4, 100, 1/4),
                   Some (100, 2/5, 100, 2/5),
                   Some (110, 1/10, 110, 1/10), Some (110, 1/4, 110, 1/4),
                   Some (110, 2/5, 110, 2/5)],
            shape = [3, 3]\<rparr>"
    by code_simp
  have c: "arrival_order stub_pricing (enqueue_all (grid_tasks scenario_notebook) ?W) ?A
      = [0, 1, 3, 2, 4, 5, 7, 6, 8]"
    by code_simp
  have d: "arrival_order stub_pricing (enqueue_all (grid_tasks scenario_notebook) ?W) ?B
      = [1, 0, 3, 2, 4, 5, 7, 6, 8]"
    by code_simp
  from a b c d show ?thesis by blast
qed

lemma cell_submit_table:
  assumes "cell_submit exec nb sch ws = Some (Inr (nb1, sch1, ws1))"
    and "\<forall>u\<ge>next_id sch. table sch u = None"
    and "m < length (grid_tasks nb)"
  shows "table sch1 (next_id sch + m) = Some (recorded (exec (next_id sch + m) (grid_tasks nb ! m)))"
proof -
  let ?n = "next_id sch"
  let ?S = "enqueue_all (grid_tasks nb) sch"
  let ?ars = "[?n ..< ?n + length (grid_tasks nb)]"
  from cell_submit_Inr [OF assms(1)] obtain n where
    sch1: "sch1 = fold (step exec) (take n ws) ?S" and
    allt: "list_all (terminal sch1) ?ars"
    by blast
  from assms(2) have "table_ok exec {?n..} ?S"
    by (simp add: table_ok_def enqueue_all_fields)
  then have ok: "table_ok exec {?n..} sch1"
    unfolding sch1 by (rule fold_step_table_ok)
  have "done_recorded (set ?ars) ?S"
    by (auto simp: done_recorded_def terminal_def enqueue_all_fields)
  then have dr: "done_recorded (set ?ars) sch1"
    unfolding sch1 by (rule fold_step_done_recorded)
  from allt assms(3) have "terminal sch1 (?n + m)" by (simp add: list_all_iff)
  with dr assms(3) obtain r where r: "table sch1 (?n + m) = Some r"
    by (auto simp: done_recorded_def)
  with ok obtain p where "map_option params (units sch1 (?n + m)) = Some p"
    "r = recorded (exec (?n + m) p)"
    unfolding table_ok_def by force
  moreover have "map_option params (units sch1 (?n + m)) = Some (grid_tasks nb ! m)"
    using assms(3) unfolding sch1 by (simp add: fold_step_params enqueue_all_fields)
  ultimately show ?thesis using r by simp
qed

lemma get_all_first_failure:
  "k < length hs \<Longrightarrow> table sch (hs ! k) = Some (Inl e) \<Longrightarrow>
   \<forall>m<k. \<exists>v. table sch (hs ! m) = Some (Inr v) \<Longrightarrow>
     get_all sch hs = Some (Inl e)"
proof (induction hs arbitrary: k)
  case Nil
  then show ?case by simp
next
  case (Cons h hs)
  show ?case
  proof (cases k)
    case 0
    with Cons.prems show ?thesis by (simp add: ar_get_def inspect_def)
  next
    case (Suc k')
    with Cons.prems(3) obtain v where v: "table sch h = Some (Inr v)" by force
    from Suc Cons.prems have "k' < length hs" "table sch (hs ! k') = Some (Inl e)"
      "\<forall>m<k'. \<exists>v. table sch (hs ! m) = Some (Inr v)"
      by auto
    from Cons.IH [OF this] v show ?thesis by (simp add: ar_get_def inspect_def)
  qed
qed

text \<open>
  C7, as stated, fails: in the 9-cell scenario with one unit's pricing function raising, the
  other 8 units are Done, and the run ends with that unit's WorkerExecutionError, raised by
  \<^verbatim>\<open>ar.get()\<close>; it is not an IncompleteGridError.
\<close>

theorem failed_unit_raises_worker_error:
  "raised (run_notebook failing_pricing scenario_notebook two_workers
             [0, 1, 1, 0, 1, 0, 0, 1, 0]) = Some (WorkerExecutionError ValueError)
   \<and> raised (run_notebook failing_pricing scenario_notebook two_workers
             [0, 1, 1, 0, 1, 0, 0, 1, 0]) \<noteq> Some IncompleteGridError
   \<and> final_statuses (cell_submit failing_pricing scenario_notebook two_workers
             [0, 1, 1, 0, 1, 0, 0, 1, 0]) [0, 1, 2, 3, 4, 5, 6, 7, 8]
     = Some [Some Done, Some Done, Some Done, Some Done, Some Failed, Some Done, Some Done,
             Some Done, Some Done]"
  by code_simp

text \<open>
  C7, amended. If a unit of the run ended Failed, the retrieval cell fails loudly: the
  first \<^verbatim>\<open>ar.get()\<close> of a failed unit, in submission order, re-raises that unit's
  WorkerExecutionError, \<^verbatim>\<open>results\<close> is not bound and the run ends there, so no array is
  assembled and nothing is substituted for the failed cell; every unit whose computation
  succeeded is Done with its value.
\<close>

theorem failed_unit_fails_retrieval:
  assumes "cell_submit exec nb sch ws = Some (Inr (nb1, sch1, ws1))"
    and "\<forall>u\<ge>next_id sch. table sch u = None"
    and "k < length (grid_tasks nb)"
    and "exec (next_id sch + k) (grid_tasks nb ! k) = Inl e"
    and "\<forall>m<k. \<exists>v. exec (next_id sch + m) (grid_tasks nb ! m) = Inr v"
  shows "cell_get nb1 sch1 = Some (Inl (WorkerExecutionError e)) \<and>
         run_notebook exec nb sch ws = Some (Inl (WorkerExecutionError e)) \<and>
         inspect sch1 (next_id sch + k) = FailedWith (WorkerExecutionError e) \<and>
         (\<forall>m<length (grid_tasks nb). \<forall>v.
            exec (next_id sch + m) (grid_tasks nb ! m) = Inr v \<longrightarrow>
              inspect sch1 (next_id sch + m) = DoneWith v)"
proof -
  let ?n = "next_id sch"
  let ?ars = "[?n ..< ?n + length (grid_tasks nb)]"
  note tab = cell_submit_table [OF assms(1,2)]
  from cell_submit_Inr [OF assms(1)] have nb1: "async_results nb1 = Some ?ars" by auto
  have "get_all sch1 ?ars = Some (Inl (WorkerExecutionError e))"
  proof (rule get_all_first_failure [of k])
    show "k < length ?ars" using assms(3) by simp
    show "table sch1 (?ars ! k) = Some (Inl (WorkerExecutionError e))"
      using tab [OF assms(3)] assms(3,4) by (simp add: recorded_def)
    show "\<forall>m<k. \<exists>v. table sch1 (?ars ! m) = Some (Inr v)"
    proof (intro allI impI)
      fix m assume m: "m < k"
      with assms(5) obtain v where "exec (?n + m) (grid_tasks nb ! m) = Inr v" by blast
      moreover from m assms(3) have "m < length (grid_tasks nb)" by simp
      ultimately have "table sch1 (?ars ! m) = Some (Inr v)"
        using tab [of m] by (simp add: recorded_def)
      then show "\<exists>v. table sch1 (?ars ! m) = Some (Inr v)" by blast
    qed
  qed
  with nb1 have g: "cell_get nb1 sch1 = Some (Inl (WorkerExecutionError e))"
    by (simp add: cell_get_def)
  with assms(1) have r: "run_notebook exec nb sch ws = Some (Inl (WorkerExecutionError e))"
    by (simp add: run_notebook_def)
  have f: "inspect sch1 (?n + k) = FailedWith (WorkerExecutionError e)"
    using tab [OF assms(3)] assms(4) by (simp add: inspect_def recorded_def)
  have "\<forall>m<length (grid_tasks nb). \<forall>v.
            exec (?n + m) (grid_tasks nb ! m) = Inr v \<longrightarrow> inspect sch1 (?n + m) = DoneWith v"
    using tab by (simp add: inspect_def recorded_def)
  with g r f show ?thesis by blast
qed

lemma failing_pricing_other: "u \<noteq> 4 \<Longrightarrow> \<exists>v. failing_pricing u p = Inr v"
  by (cases p) (simp add: failing_pricing_def stub_pricing_def)

theorem failed_unit_fails_retrieval_witness:
  "run_notebook failing_pricing scenario_notebook two_workers [0, 1, 1, 0, 1, 0, 0, 1, 0]
     = Some (Inl (WorkerExecutionError ValueError))
   \<and> (\<exists>nb1 sch1 rest.
         cell_submit failing_pricing scenario_notebook two_workers [0, 1, 1, 0, 1, 0, 0, 1, 0]
           = Some (Inr (nb1, sch1, rest)) \<and>
         cell_get nb1 sch1 = Some (Inl (WorkerExecutionError ValueError)) \<and>
         inspect sch1 4 = FailedWith (WorkerExecutionError ValueError) \<and>
         inspect sch1 0 = DoneWith (90, 1/10, 90, 1/10) \<and>
         inspect sch1 8 = DoneWith (110, 2/5, 110, 2/5))"
proof -
  let ?W = "two_workers :: (real pyval \<times> real \<times> real \<times> real \<times> int \<times> int,
                             real \<times> real \<times> real \<times> real) scheduler"
  let ?A = "[0, 1, 1, 0, 1, 0, 0, 1, 0] :: nat list"
  have "final_statuses (cell_submit failing_pricing scenario_notebook ?W ?A) [4]
      = Some [Some Failed]"
    by code_simp
  then obtain nb1 sch1 rest where
    cs: "cell_submit failing_pricing scenario_notebook ?W ?A = Some (Inr (nb1, sch1, rest))"
    by (auto simp: final_statuses_def split: option.splits sum.splits)
  have h2: "\<forall>u\<ge>next_id ?W. table ?W u = None" by (simp add: two_workers_def)
  have N: "length (grid_tasks scenario_notebook) = 9" by code_simp
  have h3: "4 < length (grid_tasks scenario_notebook)" unfolding N by simp
  have h4: "failing_pricing (next_id ?W + 4) (grid_tasks scenario_notebook ! 4) = Inl ValueError"
    by (simp add: failing_pricing_def two_workers_def)
  have h5: "\<forall>m<4. \<exists>v. failing_pricing (next_id ?W + m) (grid_tasks scenario_notebook ! m) = Inr v"
  proof (intro allI impI)
    fix m :: nat assume "m < 4"
    then have "next_id ?W + m \<noteq> 4" by (simp add: two_workers_def)
    then show "\<exists>v. failing_pricing (next_id ?W + m) (grid_tasks scenario_notebook ! m) = Inr v"
      by (rule failing_pricing_other)
  qed
  note T = failed_unit_fails_retrieval [where exec = failing_pricing and k = 4 and e = ValueError,
      OF cs h2 h3 h4 h5]
  have t0: "failing_pricing (next_id ?W + 0) (grid_tasks scenario_notebook ! 0)
      = Inr (90, 1/10, 90, 1/10)"
    by code_simp
  have t8: "failing_pricing (next_id ?W + 8) (grid_tasks scenario_notebook ! 8)
      = Inr (110, 2/5, 110, 2/5)"
    by code_simp
  from T have r: "run_notebook failing_pricing scenario_notebook ?W ?A
      = Some (Inl (WorkerExecutionError ValueError))" and
    g: "cell_get nb1 sch1 = Some (Inl (WorkerExecutionError ValueError))" and
    f: "inspect sch1 (next_id ?W + 4) = FailedWith (WorkerExecutionError ValueError)" and
    d: "\<forall>m<length (grid_tasks scenario_notebook). \<forall>v.
            failing_pricing (next_id ?W + m) (grid_tasks scenario_notebook ! m) = Inr v \<longrightarrow>
              inspect sch1 (next_id ?W + m) = DoneWith v"
    by blast+
  have l0: "0 < length (grid_tasks scenario_notebook)" unfolding N by simp
  have l8: "8 < length (grid_tasks scenario_notebook)" unfolding N by simp
  from d l0 t0 have d0: "inspect sch1 (next_id ?W + 0) = DoneWith (90, 1/10, 90, 1/10)"
    by blast
  from d l8 t8 have d8: "inspect sch1 (next_id ?W + 8) = DoneWith (110, 2/5, 110, 2/5)"
    by blast
  have n0: "next_id ?W = 0" by (simp add: two_workers_def)
  from cs g f d0 d8 have "\<exists>nb1 sch1 rest.
         cell_submit failing_pricing scenario_notebook ?W ?A = Some (Inr (nb1, sch1, rest)) \<and>
         cell_get nb1 sch1 = Some (Inl (WorkerExecutionError ValueError)) \<and>
         inspect sch1 4 = FailedWith (WorkerExecutionError ValueError) \<and>
         inspect sch1 0 = DoneWith (90, 1/10, 90, 1/10) \<and>
         inspect sch1 8 = DoneWith (110, 2/5, 110, 2/5)"
    unfolding n0 by (intro exI [of _ nb1] exI [of _ sch1] exI [of _ rest]) simp
  with r show ?thesis by blast
qed

lemma assign_other:
  assumes "u' \<noteq> u" and "list_all (\<lambda>wk. current_unit wk \<noteq> Some u) (workers sch)"
  shows "list_all (\<lambda>wk. current_unit wk \<noteq> Some u) (workers (assign w u' sch))"
    and "units (assign w u' sch) u = units sch u"
    and "table (assign w u' sch) = table sch"
    and "pending (assign w u' sch) = pending sch"
  using assms by (auto simp: assign_def list_all_iff set_status_other)

lemma dispatch_from_retired:
  "u \<notin> set q \<Longrightarrow> list_all (\<lambda>wk. current_unit wk \<noteq> Some u) (workers sch) \<Longrightarrow>
     retired u (dispatch_from q sch) \<and> units (dispatch_from q sch) u = units sch u \<and>
     table (dispatch_from q sch) = table sch"
proof (induction q arbitrary: sch)
  case Nil
  then show ?case by (simp add: retired_def)
next
  case (Cons u' q)
  show ?case
  proof (cases "acquire_idle (workers sch)")
    case None
    with Cons.prems show ?thesis by (simp add: retired_def)
  next
    case (Some wk)
    from Cons.prems have ne: "u' \<noteq> u" and q: "u \<notin> set q" by auto
    note A = assign_other [OF ne Cons.prems(2), of "wid wk"]
    from Cons.IH [OF q A(1)] A(2,3) Some show ?thesis by simp
  qed
qed

lemma dispatch_loop_retired:
  "retired u sch \<Longrightarrow>
     retired u (dispatch_loop sch) \<and> units (dispatch_loop sch) u = units sch u \<and>
     table (dispatch_loop sch) = table sch"
  unfolding dispatch_loop_def by (rule dispatch_from_retired) (simp_all add: retired_def)

lemma release_other:
  "list_all (\<lambda>wk. current_unit wk \<noteq> Some u) ws \<Longrightarrow>
     list_all (\<lambda>wk. current_unit wk \<noteq> Some u) (release w ws)"
  by (auto simp: release_def list_all_iff)

lemma on_worker_result_retired:
  assumes "retired u sch" and "v \<noteq> u"
  shows "retired u (on_worker_result w v outcome sch) \<and>
         units (on_worker_result w v outcome sch) u = units sch u \<and>
         table (on_worker_result w v outcome sch) u = table sch u"
proof -
  let ?sch1 = "sch\<lparr>units := set_status v (case outcome of Inl e \<Rightarrow> Failed | Inr x \<Rightarrow> Done)
                                 (units sch),
                     workers := release w (workers sch),
                     table := (table sch)(v \<mapsto> recorded outcome)\<rparr>"
  from assms have p: "u \<notin> set (pending sch)" and
    w1: "list_all (\<lambda>wk. current_unit wk \<noteq> Some u) (workers ?sch1)"
    by (simp_all add: retired_def release_other)
  have u1: "units ?sch1 u = units sch u" "table ?sch1 u = table sch u"
    using assms(2) by (simp_all add: set_status_other)
  show ?thesis
  proof (cases "pending sch")
    case Nil
    with p w1 u1 show ?thesis by (simp add: on_worker_result_def Let_def retired_def)
  next
    case (Cons u' q)
    with p have ne: "u' \<noteq> u" and q: "u \<notin> set q" by auto
    have w2: "list_all (\<lambda>wk. current_unit wk \<noteq> Some u) (workers (?sch1\<lparr>pending := q\<rparr>))"
      using w1 by simp
    note A = assign_other [OF ne w2, of w]
    from A q u1 Cons show ?thesis
      by (simp add: on_worker_result_def Let_def retired_def)
  qed
qed

lemma worker_finish_retired:
  assumes "retired u sch"
  shows "retired u (worker_finish exec w sch) \<and>
         units (worker_finish exec w sch) u = units sch u \<and>
         table (worker_finish exec w sch) u = table sch u"
proof (cases "find (\<lambda>wk. wid wk = w) (workers sch)")
  case None
  with assms show ?thesis by (simp add: worker_finish_def)
next
  case (Some wk)
  then have wk: "wk \<in> set (workers sch)" by (auto simp: find_Some_iff in_set_conv_nth)
  show ?thesis
  proof (cases "current_unit wk")
    case None
    with Some assms show ?thesis by (simp add: worker_finish_def)
  next
    case v: (Some v)
    with wk assms have ne: "v \<noteq> u" by (auto simp: retired_def list_all_iff)
    show ?thesis
    proof (cases "units sch v")
      case None
      with Some v assms show ?thesis by (simp add: worker_finish_def)
    next
      case wu: (Some wu)
      with Some v have "worker_finish exec w sch = on_worker_result w v (exec v (params wu)) sch"
        by (simp add: worker_finish_def)
      with on_worker_result_retired [OF assms ne] show ?thesis by simp
    qed
  qed
qed

lemma step_retired:
  assumes "retired u sch"
  shows "retired u (step exec w sch) \<and> units (step exec w sch) u = units sch u \<and>
         table (step exec w sch) u = table sch u"
proof -
  note D = dispatch_loop_retired [OF assms]
  from D have r: "retired u (dispatch_loop sch)" by simp
  from worker_finish_retired [OF r, of exec w] D show ?thesis by (simp add: step_def)
qed

lemma fold_step_retired:
  "retired u sch \<Longrightarrow>
     retired u (fold (step exec) ws sch) \<and> units (fold (step exec) ws sch) u = units sch u \<and>
     table (fold (step exec) ws sch) u = table sch u"
proof (induction ws arbitrary: sch)
  case Nil
  then show ?case by simp
next
  case (Cons w ws)
  note S = step_retired [OF Cons.prems, of exec w]
  from S have "retired u (step exec w sch)" by simp
  from Cons.IH [OF this] S show ?case by simp
qed

lemma failure_retires:
  assumes f: "find (\<lambda>wk. wid wk = w) (workers sch) = Some wk"
    and c: "current_unit wk = Some u" and wu: "units sch u = Some wu"
    and e: "exec u (params wu) = Inl e"
    and p: "u \<notin> set (pending sch)"
    and o: "list_all (\<lambda>wk'. current_unit wk' = Some u \<longrightarrow> wid wk' = w) (workers sch)"
  shows "retired u (worker_finish exec w sch)"
    and "units (worker_finish exec w sch) u = Some (wu\<lparr>status := Failed\<rparr>)"
    and "table (worker_finish exec w sch) u = Some (Inl (WorkerExecutionError e))"
proof -
  let ?sch1 = "sch\<lparr>units := set_status u Failed (units sch),
                     workers := release w (workers sch),
                     table := (table sch)(u \<mapsto> Inl (WorkerExecutionError e))\<rparr>"
  have wf: "worker_finish exec w sch = on_worker_result w u (Inl e) sch"
    using f c wu e by (simp add: worker_finish_def)
  have w1: "list_all (\<lambda>wk. current_unit wk \<noteq> Some u) (workers ?sch1)"
    using o by (auto simp: release_def list_all_iff)
  have u1: "units ?sch1 u = Some (wu\<lparr>status := Failed\<rparr>)"
    using wu by (simp add: set_status_same)
  have t1: "table ?sch1 u = Some (Inl (WorkerExecutionError e))" by simp
  have "retired u (worker_finish exec w sch) \<and>
        units (worker_finish exec w sch) u = Some (wu\<lparr>status := Failed\<rparr>) \<and>
        table (worker_finish exec w sch) u = Some (Inl (WorkerExecutionError e))"
  proof (cases "pending sch")
    case Nil
    with p w1 u1 t1 show ?thesis
      unfolding wf by (simp add: on_worker_result_def Let_def retired_def recorded_def)
  next
    case (Cons u' q)
    with p have ne: "u' \<noteq> u" and q: "u \<notin> set q" by auto
    have w2: "list_all (\<lambda>wk. current_unit wk \<noteq> Some u) (workers (?sch1\<lparr>pending := q\<rparr>))"
      using w1 by simp
    note A = assign_other [OF ne w2, of w]
    from A q u1 t1 Cons show ?thesis
      unfolding wf by (simp add: on_worker_result_def Let_def retired_def recorded_def)
  qed
  then show "retired u (worker_finish exec w sch)"
    and "units (worker_finish exec w sch) u = Some (wu\<lparr>status := Failed\<rparr>)"
    and "table (worker_finish exec w sch) u = Some (Inl (WorkerExecutionError e))"
    by simp_all
qed

lemma apply_async_error: "apply_async sch p = Inl e \<Longrightarrow> e = SubmissionError"
  by (auto simp: apply_async_def submit_def split: if_splits sum.splits list.splits)

lemma submit_sigmas_error:
  "submit_sigmas nb strike sigmas st = Inl e \<Longrightarrow> e = SubmissionError"
proof (induction sigmas arbitrary: st)
  case Nil
  then show ?case by simp
next
  case (Cons sigma sigmas)
  obtain ars sch where st: "st = (ars, sch)" by (cases st)
  show ?case
  proof (cases "apply_async sch (price nb, strike, sigma, rate nb, days nb, paths nb)")
    case (Inl e')
    with Cons.prems st show ?thesis by (auto dest: apply_async_error)
  next
    case (Inr r)
    with Cons.prems st show ?thesis by (cases r) (auto dest: Cons.IH)
  qed
qed

lemma submit_strikes_error:
  "submit_strikes nb strikes st = Inl e \<Longrightarrow> e = SubmissionError"
proof (induction strikes arbitrary: st)
  case Nil
  then show ?case by simp
next
  case (Cons strike strikes)
  then show ?case
    by (cases "submit_sigmas nb strike (sigma_vals nb) st")
       (auto dest: submit_sigmas_error)
qed

lemma cell_submit_error:
  "cell_submit exec nb sch ws = Some (Inl e) \<Longrightarrow> e = SubmissionError"
  by (auto simp: cell_submit_def split: sum.splits option.splits dest: submit_strikes_error)

text \<open>
  C8. When a worker's computation fails, its unit is marked Failed and the
  WorkerExecutionError is recorded in the ResultTable; whatever the workers report
  afterwards, the unit stays Failed, is never queued again and is never given to a worker
  again (no retry). Neither \<open>submit\<close> nor the submission cell with its wait raises a
  WorkerExecutionError; the error surfaces when the handle is inspected, where
  \<^verbatim>\<open>ar.get()\<close> raises it.
\<close>

theorem failure_is_recorded_not_retried:
  assumes "find (\<lambda>wk. wid wk = w) (workers sch) = Some wk"
    and "current_unit wk = Some u" and "units sch u = Some wu"
    and "exec u (params wu) = Inl e"
    and "u \<notin> set (pending sch)"
    and "list_all (\<lambda>wk'. current_unit wk' = Some u \<longrightarrow> wid wk' = w) (workers sch)"
  shows "map_option status (units (fold (step exec) ws (worker_finish exec w sch)) u) = Some Failed \<and>
         terminal (fold (step exec) ws (worker_finish exec w sch)) u \<and>
         u \<notin> set (pending (fold (step exec) ws (worker_finish exec w sch))) \<and>
         list_all (\<lambda>wk. current_unit wk \<noteq> Some u)
           (workers (fold (step exec) ws (worker_finish exec w sch))) \<and>
         table (fold (step exec) ws (worker_finish exec w sch)) u
           = Some (Inl (WorkerExecutionError e)) \<and>
         inspect (fold (step exec) ws (worker_finish exec w sch)) u
           = FailedWith (WorkerExecutionError e) \<and>
         ar_get (fold (step exec) ws (worker_finish exec w sch)) u
           = Some (Inl (WorkerExecutionError e)) \<and>
         submit schx us \<noteq> Inl (WorkerExecutionError ex) \<and>
         cell_submit pricing nb schy wsy \<noteq> Some (Inl (WorkerExecutionError ey))"
proof -
  let ?s1 = "worker_finish exec w sch"
  let ?s2 = "fold (step exec) ws ?s1"
  note F = failure_retires [where exec = exec and w = w and sch = sch and u = u and wu = wu
      and e = e, OF assms]
  note R = fold_step_retired [OF F(1), of exec ws]
  from R F(2) have u2: "units ?s2 u = Some (wu\<lparr>status := Failed\<rparr>)" by simp
  from R F(3) have t2: "table ?s2 u = Some (Inl (WorkerExecutionError e))" by simp
  from R have r2: "u \<notin> set (pending ?s2)"
    "list_all (\<lambda>wk. current_unit wk \<noteq> Some u) (workers ?s2)"
    by (simp_all add: retired_def)
  have s: "submit schx us \<noteq> Inl (WorkerExecutionError ex)"
    by (simp add: submit_def)
  have c: "cell_submit pricing nb schy wsy \<noteq> Some (Inl (WorkerExecutionError ey))"
    using cell_submit_error [of pricing nb schy wsy "WorkerExecutionError ey"] by auto
  from u2 t2 r2 s c show ?thesis
    by (simp add: terminal_def inspect_def ar_get_def)
qed

theorem failure_is_recorded_not_retried_witness:
  "map_option status
     (units (fold (step failing_pricing) [0, 1, 0, 1]
        (worker_finish failing_pricing 1
           (fold (step failing_pricing) [0, 1, 1, 0]
              (enqueue_all (grid_tasks scenario_notebook) two_workers)))) 4) = Some Failed
   \<and> ar_get (fold (step failing_pricing) [0, 1, 0, 1]
        (worker_finish failing_pricing 1
           (fold (step failing_pricing) [0, 1, 1, 0]
              (enqueue_all (grid_tasks scenario_notebook) two_workers)))) 4
       = Some (Inl (WorkerExecutionError ValueError))
   \<and> 4 \<notin> set (pending (fold (step failing_pricing) [0, 1, 0, 1]
        (worker_finish failing_pricing 1
           (fold (step failing_pricing) [0, 1, 1, 0]
              (enqueue_all (grid_tasks scenario_notebook) two_workers)))))
   \<and> map_option status
       (units (fold (step failing_pricing) [0, 1, 1, 0]
              (enqueue_all (grid_tasks scenario_notebook) two_workers)) 4) = Some Dispatched
   \<and> raised (cell_submit failing_pricing scenario_notebook two_workers
               [0, 1, 1, 0, 1, 0, 0, 1, 0]) = None"
proof -
  let ?S4 = "fold (step failing_pricing) [0, 1, 1, 0]
              (enqueue_all (grid_tasks scenario_notebook) two_workers)"
  have h1: "find (\<lambda>wk. wid wk = 1) (workers ?S4)
      = Some \<lparr>wid = 1, wstate = Busy, current_unit = Some 4\<rparr>"
    by code_simp
  have h2: "current_unit \<lparr>wid = 1, wstate = Busy, current_unit = Some 4\<rparr> = Some (4::nat)"
    by simp
  have h3: "units ?S4 4
      = Some \<lparr>uid = 4, params = (PyFloat 100, 100, 1/4, 1/20, 260, 10000), status = Dispatched\<rparr>"
    by code_simp
  have h4: "failing_pricing 4
      (params \<lparr>uid = 4, params = (PyFloat 100, 100, 1/4, 1/20, 260, 10000), status = Dispatched\<rparr>)
      = Inl ValueError"
    by (simp add: failing_pricing_def)
  have h5: "4 \<notin> set (pending ?S4)"
    by code_simp
  have h6: "list_all (\<lambda>wk'. current_unit wk' = Some 4 \<longrightarrow> wid wk' = 1) (workers ?S4)"
    by code_simp
  have a: "map_option status (units ?S4 4) = Some Dispatched"
    by code_simp
  have b: "raised (cell_submit failing_pricing scenario_notebook two_workers
               [0, 1, 1, 0, 1, 0, 0, 1, 0]) = None"
    by code_simp
  from failure_is_recorded_not_retried [where exec = failing_pricing and w = 1 and sch = ?S4
      and u = 4 and e = ValueError and ws = "[0, 1, 0, 1]", OF h1 h2 h3 h4 h5 h6] a b
  show ?thesis by blast
qed

section \<open>Properties of the pricing function\<close>

lemma overflow_threshold_pos: "0 < overflow_threshold"
proof -
  have "(2::real) ^ 970 < 2 ^ 1024" by (rule power_strict_increasing) simp_all
  then show ?thesis by (simp add: overflow_threshold_def)
qed


lemma rnd_nonneg: "0 \<le> x \<Longrightarrow> ge_zero_or_nan (rnd x)"
  using overflow_threshold_pos by (simp add: rnd_def ge_zero_or_nan_def)

lemma np_maximum_zero: "ge_zero_or_nan (np_maximum (Fin 0) x)"
  by (cases x) (simp_all add: ge_zero_or_nan_def)

lemma fl_add_ok: "ge_zero_or_nan x \<Longrightarrow> ge_zero_or_nan y \<Longrightarrow> ge_zero_or_nan (fl_add x y)"
  by (cases x; cases y) (simp_all add: ge_zero_or_nan_def rnd_nonneg [unfolded ge_zero_or_nan_def])

lemma fl_mul_ok: "ge_zero_or_nan x \<Longrightarrow> ge_zero_or_nan y \<Longrightarrow> ge_zero_or_nan (fl_mul x y)"
  by (cases x; cases y) (simp_all add: ge_zero_or_nan_def rnd_nonneg [unfolded ge_zero_or_nan_def])

lemma fl_div_count_ok: "ge_zero_or_nan x \<Longrightarrow> ge_zero_or_nan (fl_div_count x n)"
  by (cases x) (simp_all add: ge_zero_or_nan_def rnd_nonneg [unfolded ge_zero_or_nan_def])

lemma fold_add_ok:
  "ge_zero_or_nan s \<Longrightarrow> list_all ge_zero_or_nan xs \<Longrightarrow>
     ge_zero_or_nan (fold (\<lambda>x s. fl_add s x) xs s)"
  by (induction xs arbitrary: s) (simp_all add: fl_add_ok)

lemma np_mean_ok: "list_all ge_zero_or_nan xs \<Longrightarrow> ge_zero_or_nan (np_mean xs)"
  unfolding np_mean_def
  by (intro fl_div_count_ok fold_add_ok) (simp_all add: ge_zero_or_nan_def)

lemma maximum_zeros_ok:
  "list_all ge_zero_or_nan (map2 np_maximum (replicate n (Fin 0)) xs)"
  by (auto simp: list_all_iff set_zip np_maximum_zero)

lemma math_exp_ok: "math_exp x = Inr y \<Longrightarrow> ge_zero_or_nan y"
  by (cases x) (auto simp: ge_zero_or_nan_def rnd_nonneg [unfolded ge_zero_or_nan_def] split: if_splits)

lemma payoff_ok:
  "math_exp x = Inr r_factor \<Longrightarrow>
     ge_zero_or_nan (fl_mul r_factor (np_mean (map2 np_maximum (replicate n (Fin 0)) xs)))"
  by (intro fl_mul_ok np_mean_ok maximum_zeros_ok) (rule math_exp_ok)

lemma overflow_threshold_ge: "2 ^ 1023 \<le> overflow_threshold"
proof -
  have "(2::real) ^ 970 \<le> 2 ^ 1023" by (rule power_increasing) simp_all
  moreover have "(2::real) ^ 1024 = 2 ^ 1023 + 2 ^ 1023" by simp
  ultimately show ?thesis by (simp add: overflow_threshold_def)
qed

lemma overflow_threshold_le: "overflow_threshold \<le> 2 ^ 1024"
  by (simp add: overflow_threshold_def)

lemma rnd_normal:
  assumes "1 / 2 ^ 1074 \<le> \<bar>x\<bar>" and "\<bar>x\<bar> < 2 ^ 1023"
  shows "rnd x = Fin x"
proof -
  have "underflow_threshold < 1 / 2 ^ 1074"
    by (simp add: underflow_threshold_def)
  with assms(1) have u: "\<not> \<bar>x\<bar> \<le> underflow_threshold" by linarith
  from assms(2) overflow_threshold_ge have "\<not> overflow_threshold \<le> x" "\<not> x \<le> - overflow_threshold"
    by linarith+
  with u show ?thesis by (simp add: rnd_def)
qed


lemma exp_ge_two_power: "2 ^ n \<le> exp (real n)"
proof -
  have "(2::real) \<le> exp 1" using exp_ge_add_one_self [of 1] by simp
  then have "(2::real) ^ n \<le> exp 1 ^ n" by (intro power_mono) simp_all
  also have "\<dots> = exp (real n)" using exp_of_nat_mult [of n "1::real"] by simp
  finally show ?thesis .
qed

lemma rnd_exp_overflow:
  assumes "1024 \<le> x"
  shows "rnd (exp x) = PInf"
proof -
  have "overflow_threshold \<le> 2 ^ 1024" by (rule overflow_threshold_le)
  also have "\<dots> \<le> exp (real 1024)" by (rule exp_ge_two_power)
  also have "\<dots> \<le> exp x" using assms by simp
  finally show ?thesis by (simp add: rnd_def)
qed

lemma rnd_exp_underflow:
  assumes "x \<le> - 1075"
  shows "rnd (exp x) = Fin 0"
proof -
  have "(2::real) ^ 1075 \<le> exp (real 1075)" by (rule exp_ge_two_power)
  also have "\<dots> \<le> exp (- x)"
    by (rule iffD2 [OF exp_le_cancel_iff]) (use assms in linarith)
  finally have "2 ^ 1075 \<le> exp (- x)" .
  then have "inverse (exp (- x)) \<le> inverse (2 ^ 1075)"
    by (rule le_imp_inverse_le) simp
  moreover have "exp x = inverse (exp (- x))"
    using exp_minus [of "- x"] by simp
  moreover have "underflow_threshold = inverse (2 ^ 1075)"
    unfolding underflow_threshold_def by (rule inverse_eq_divide [symmetric])
  ultimately have le: "exp x \<le> underflow_threshold" by (simp only:)
  have "exp x \<le> exp 0"
    by (rule iffD2 [OF exp_le_cancel_iff]) (use assms in linarith)
  then have "exp x \<le> 1" by (simp only: exp_zero)
  also have "\<dots> < 2 ^ 1023" by (rule one_less_power) simp_all
  also have "\<dots> \<le> overflow_threshold" by (rule overflow_threshold_ge)
  finally have "\<not> overflow_threshold \<le> exp x" by (simp only: not_le)
  moreover have "\<not> exp x \<le> - overflow_threshold"
    using overflow_threshold_pos exp_gt_zero [of x] by linarith
  moreover have "\<bar>exp x\<bar> = exp x" by (rule abs_exp_cancel)
  ultimately show ?thesis using le by (simp only: rnd_def if_False if_True)
qed

lemma rnd_exp_small:
  assumes "- (1 / 2) \<le> x" and "x \<le> 0"
  shows "rnd (exp x) = Fin (exp x)"
proof (rule rnd_normal)
  have "(1::real) / 2 ^ 1074 \<le> 1 / 2 ^ 1"
    by (rule divide_left_mono) (auto intro: power_increasing)
  also have "\<dots> \<le> 1 + x" using assms by simp
  also have "\<dots> \<le> exp x" by (rule exp_ge_add_one_self)
  finally show "1 / 2 ^ 1074 \<le> \<bar>exp x\<bar>" by (simp only: abs_exp_cancel)
  have "exp x \<le> exp 0"
    by (rule iffD2 [OF exp_le_cancel_iff]) (use assms in linarith)
  then have "exp x \<le> 1" by (simp only: exp_zero)
  also have "\<dots> < 2 ^ 1023" by (rule one_less_power) simp_all
  finally show "\<bar>exp x\<bar> < 2 ^ 1023" by (simp only: abs_exp_cancel)
qed

lemma rnd_numeral [simp]:
  "rnd 1 = Fin 1" "rnd 100 = Fin 100" "rnd 10000 = Fin 10000"
  "rnd 100000000 = Fin 100000000" "rnd 50000000 = Fin 50000000"
  "rnd (1/16) = Fin (1/16)" "rnd (1/32) = Fin (1/32)"
  by (rule rnd_normal; simp)+

lemma int_to_float_Inr:
  "int_to_float n = Inr d \<Longrightarrow> \<bar>real_of_int n\<bar> < overflow_threshold \<and> d = Fin (real_of_int n)"
  using overflow_threshold_pos
  by (auto simp: int_to_float_def rnd_def split: if_splits)




lemma one_over_Inr:
  assumes "one_over n = Inr h"
  shows "n \<noteq> 0 \<and> h = Fin (1 / real_of_int n)"
proof -
  from assms obtain d where d: "int_to_float n = Inr d" and n: "n \<noteq> 0" and
    h: "h = rnd (1 / real_of_int n)"
    by (auto simp: one_over_def split: sum.splits if_splits)
  from int_to_float_Inr [OF d] overflow_threshold_le
  have lt: "\<bar>real_of_int n\<bar> < 2 ^ 1024" by linarith
  from n have "1 \<le> \<bar>n\<bar>" by arith
  then have "real_of_int 1 \<le> real_of_int \<bar>n\<bar>" by (simp only: of_int_le_iff)
  then have ge: "1 \<le> \<bar>real_of_int n\<bar>" by simp
  have "rnd (1 / real_of_int n) = Fin (1 / real_of_int n)"
  proof (rule rnd_normal)
    have "(1::real) / 2 ^ 1074 \<le> 1 / 2 ^ 1024"
      by (rule divide_left_mono) (auto intro: power_increasing)
    also have "\<dots> \<le> 1 / \<bar>real_of_int n\<bar>"
      using lt ge by (intro divide_left_mono) (auto intro: mult_pos_pos)
    finally show "1 / 2 ^ 1074 \<le> \<bar>1 / real_of_int n\<bar>" by (simp only: abs_divide abs_one)
    have "1 / \<bar>real_of_int n\<bar> \<le> 1 / 1"
      using ge by (intro divide_left_mono) auto
    also have "\<dots> < (2::real) ^ 1023" by (simp only: div_by_1) (rule one_less_power, simp_all)
    finally show "\<bar>1 / real_of_int n\<bar> < 2 ^ 1023" by (simp only: abs_divide abs_one)
  qed
  with n h show ?thesis by simp
qed



lemma fl_mul_NaN [simp]: "fl_mul x NaN = NaN"
  by (cases x) simp_all

lemma fl_add_NaN [simp]: "fl_add x NaN = NaN"
  by (cases x) simp_all

lemma np_maximum_NaN [simp]: "np_maximum x NaN = NaN"
  by (cases x) simp_all



lemma np_ones_Inr:
  "0 \<le> n \<Longrightarrow> n \<le> int (max_items m) \<Longrightarrow> n \<le> int (mem_items m) \<Longrightarrow>
     np_ones m n = Inr (replicate (nat n) (Fin 1))"
  by (simp add: np_ones_def)

lemma np_zeros_Inr:
  "0 \<le> n \<Longrightarrow> n \<le> int (max_items m) \<Longrightarrow> n \<le> int (mem_items m) \<Longrightarrow>
     np_zeros m n = Inr (replicate (nat n) (Fin 0))"
  by (simp add: np_zeros_def)



lemma py_range_Inr:
  "n \<le> int (max_range m) \<Longrightarrow> n \<le> int (mem_range m) \<Longrightarrow> py_range m n = Inr (nat n)"
  by (simp add: py_range_def)

lemma machine64_simps [simp]:
  "max_items machine64 = 2 ^ 60 - 1" "mem_items machine64 = 2 ^ 30"
  "max_range machine64 = 2 ^ 63 - 1" "mem_range machine64 = 2 ^ 28"
  by (simp_all add: machine64_def)









subsection \<open>Magnitudes inside the range of the floats\<close>

lemma finite_upto_Fin [simp]: "finite_upto B (Fin a) \<longleftrightarrow> \<bar>a\<bar> \<le> B"
  by (simp add: finite_upto_def)

lemma nonneg_upto_Fin [simp]: "nonneg_upto B (Fin a) \<longleftrightarrow> 0 \<le> a \<and> a \<le> B"
  by (simp add: nonneg_upto_def)

lemma finite_uptoE: "finite_upto B x \<Longrightarrow> (\<And>a. x = Fin a \<Longrightarrow> \<bar>a\<bar> \<le> B \<Longrightarrow> P) \<Longrightarrow> P"
  by (cases x) (simp_all add: finite_upto_def)

lemma nonneg_uptoE: "nonneg_upto B x \<Longrightarrow> (\<And>a. x = Fin a \<Longrightarrow> 0 \<le> a \<Longrightarrow> a \<le> B \<Longrightarrow> P) \<Longrightarrow> P"
  by (cases x) (simp_all add: nonneg_upto_def)

lemma finite_upto_mono: "finite_upto A x \<Longrightarrow> A \<le> B \<Longrightarrow> finite_upto B x"
  by (erule finite_uptoE) simp

lemma nonneg_upto_mono: "nonneg_upto A x \<Longrightarrow> A \<le> B \<Longrightarrow> nonneg_upto B x"
  by (erule nonneg_uptoE) simp

lemma nonneg_upto_finite_upto: "nonneg_upto B x \<Longrightarrow> finite_upto B x"
  by (erule nonneg_uptoE) simp

lemma rnd_cases:
  assumes "\<bar>x\<bar> < 2 ^ 1023"
  shows "rnd x = Fin x \<or> rnd x = Fin 0"
proof -
  from assms overflow_threshold_ge
  have "\<not> overflow_threshold \<le> x" "\<not> x \<le> - overflow_threshold" by linarith+
  then show ?thesis by (simp add: rnd_def)
qed

lemma rnd_finite_upto: "\<bar>x\<bar> \<le> B \<Longrightarrow> B < 2 ^ 1023 \<Longrightarrow> finite_upto B (rnd x)"
  using rnd_cases [of x] by auto

lemma rnd_nonneg_upto: "0 \<le> x \<Longrightarrow> x \<le> B \<Longrightarrow> B < 2 ^ 1023 \<Longrightarrow> nonneg_upto B (rnd x)"
  using rnd_cases [of x] by auto

lemma fl_mul_finite_upto:
  assumes "finite_upto A x" and "finite_upto B y" and "A * B < 2 ^ 1023"
  shows "finite_upto (A * B) (fl_mul x y)"
proof -
  from assms(1) obtain a where x: "x = Fin a" and a: "\<bar>a\<bar> \<le> A" by (rule finite_uptoE)
  from assms(2) obtain b where y: "y = Fin b" and b: "\<bar>b\<bar> \<le> B" by (rule finite_uptoE)
  from a have "0 \<le> A" by linarith
  with a b have "\<bar>a\<bar> * \<bar>b\<bar> \<le> A * B" by (intro mult_mono) simp_all
  then have "\<bar>a * b\<bar> \<le> A * B" by (simp only: abs_mult)
  then show ?thesis unfolding x y fl_mul.simps using assms(3) by (rule rnd_finite_upto)
qed

lemma fl_mul_nonneg_upto:
  assumes "nonneg_upto A x" and "nonneg_upto B y" and "A * B < 2 ^ 1023"
  shows "nonneg_upto (A * B) (fl_mul x y)"
proof -
  from assms(1) obtain a where x: "x = Fin a" and a: "0 \<le> a" "a \<le> A" by (rule nonneg_uptoE)
  from assms(2) obtain b where y: "y = Fin b" and b: "0 \<le> b" "b \<le> B" by (rule nonneg_uptoE)
  from a b have "a * b \<le> A * B" by (intro mult_mono) simp_all
  with a b have "0 \<le> a * b" "a * b \<le> A * B" by simp_all
  then show ?thesis unfolding x y fl_mul.simps using assms(3) by (intro rnd_nonneg_upto)
qed

lemma fl_add_finite_upto:
  assumes "finite_upto A x" and "finite_upto B y" and "A + B < 2 ^ 1023"
  shows "finite_upto (A + B) (fl_add x y)"
proof -
  from assms(1) obtain a where x: "x = Fin a" and a: "\<bar>a\<bar> \<le> A" by (rule finite_uptoE)
  from assms(2) obtain b where y: "y = Fin b" and b: "\<bar>b\<bar> \<le> B" by (rule finite_uptoE)
  from a b have "\<bar>a + b\<bar> \<le> A + B" by linarith
  then show ?thesis unfolding x y fl_add.simps using assms(3) by (rule rnd_finite_upto)
qed

lemma fl_add_nonneg_upto:
  assumes "nonneg_upto A x" and "nonneg_upto B y" and "A + B < 2 ^ 1023"
  shows "nonneg_upto (A + B) (fl_add x y)"
proof -
  from assms(1) obtain a where x: "x = Fin a" and a: "0 \<le> a" "a \<le> A" by (rule nonneg_uptoE)
  from assms(2) obtain b where y: "y = Fin b" and b: "0 \<le> b" "b \<le> B" by (rule nonneg_uptoE)
  from a b have "0 \<le> a + b" "a + b \<le> A + B" by linarith+
  then show ?thesis unfolding x y fl_add.simps using assms(3) by (rule rnd_nonneg_upto)
qed

lemma fl_sub_finite_upto:
  assumes "finite_upto A x" and "finite_upto B y" and "A + B < 2 ^ 1023"
  shows "finite_upto (A + B) (fl_sub x y)"
proof -
  from assms(2) have "finite_upto B (fl_neg y)" by (auto elim!: finite_uptoE)
  with assms(1) show ?thesis unfolding fl_sub_def using assms(3) by (rule fl_add_finite_upto)
qed

lemma np_exp_nonneg_upto:
  assumes "finite_upto B x" and "exp B < 2 ^ 1023"
  shows "nonneg_upto (exp B) (np_exp x)"
proof -
  from assms(1) obtain a where x: "x = Fin a" and a: "\<bar>a\<bar> \<le> B" by (rule finite_uptoE)
  have "0 \<le> exp a" by simp
  moreover from a have "exp a \<le> exp B" by simp
  ultimately show ?thesis unfolding x np_exp.simps using assms(2) by (rule rnd_nonneg_upto)
qed

lemma math_exp_nonneg_upto:
  assumes "finite_upto B x" and "exp B < 2 ^ 1023"
  shows "\<exists>y. math_exp x = Inr y \<and> nonneg_upto (exp B) y"
proof -
  from assms(1) obtain a where x: "x = Fin a" and a: "\<bar>a\<bar> \<le> B" by (rule finite_uptoE)
  have "0 \<le> exp a" by simp
  moreover from a have "exp a \<le> exp B" by simp
  ultimately have b: "nonneg_upto (exp B) (rnd (exp a))" using assms(2) by (rule rnd_nonneg_upto)
  then have "rnd (exp a) \<noteq> PInf" by (auto elim: nonneg_uptoE)
  with b show ?thesis by (simp add: x)
qed

lemma py_square_nonneg_upto:
  assumes "a * a \<le> C" and "C < 2 ^ 1023"
  shows "\<exists>y. py_square (Fin a) = Inr y \<and> nonneg_upto C y"
proof -
  have "0 \<le> a * a" by simp
  then have b: "nonneg_upto C (rnd (a * a))" using assms by (rule rnd_nonneg_upto)
  then have "rnd (a * a) \<noteq> PInf" by (auto elim: nonneg_uptoE)
  with b show ?thesis by simp
qed

lemma fl_div_count_finite_upto:
  assumes "finite_upto B x" and "1 \<le> n" and "B < 2 ^ 1023"
  shows "finite_upto B (fl_div_count x n)"
proof -
  from assms(1) obtain a where x: "x = Fin a" and a: "\<bar>a\<bar> \<le> B" by (rule finite_uptoE)
  from assms(2) have "1 \<le> real n" by simp
  then have "\<bar>a\<bar> / real n \<le> \<bar>a\<bar> / 1" by (intro divide_left_mono) simp_all
  with a have "\<bar>a / real n\<bar> \<le> B" by simp
  then have "finite_upto B (rnd (a / real n))" using assms(3) by (rule rnd_finite_upto)
  with assms(2) show ?thesis by (simp add: x)
qed

lemma fl_div_count_nonneg_upto:
  assumes "nonneg_upto B x" and "1 \<le> n" and "B < 2 ^ 1023"
  shows "nonneg_upto B (fl_div_count x n)"
proof -
  from assms(1) obtain a where x: "x = Fin a" and a: "0 \<le> a" "a \<le> B" by (rule nonneg_uptoE)
  from assms(2) have "1 \<le> real n" by simp
  then have "a / real n \<le> a / 1" using a(1) by (intro divide_left_mono) simp_all
  with a have "a / real n \<le> B" by simp
  with a(1) have "0 \<le> a / real n" "a / real n \<le> B" by simp_all
  then have "nonneg_upto B (rnd (a / real n))" using assms(3) by (rule rnd_nonneg_upto)
  with assms(2) show ?thesis by (simp add: x)
qed

lemma np_maximum_nonneg_upto: "finite_upto B x \<Longrightarrow> nonneg_upto B (np_maximum (Fin 0) x)"
  by (erule finite_uptoE) auto

lemma fold_add_nonneg_upto:
  assumes "list_all (nonneg_upto B) xs" and "nonneg_upto C s" and "0 \<le> B"
    and "C + real (length xs) * B < 2 ^ 1023"
  shows "nonneg_upto (C + real (length xs) * B) (fold (\<lambda>x s. fl_add s x) xs s)"
  using assms
proof (induction xs arbitrary: C s)
  case Nil
  then show ?case by simp
next
  case (Cons x xs)
  have e: "C + real (length (x # xs)) * B = (C + B) + real (length xs) * B"
    by (simp add: algebra_simps)
  from Cons.prems have x: "nonneg_upto B x" and xs: "list_all (nonneg_upto B) xs" by simp_all
  from Cons.prems(3) have "0 \<le> real (length xs) * B" by simp
  with Cons.prems(4) e have lt: "C + B < 2 ^ 1023" by linarith
  from Cons.prems(2) x lt have "nonneg_upto (C + B) (fl_add s x)" by (rule fl_add_nonneg_upto)
  moreover from Cons.prems(4) e have "C + B + real (length xs) * B < 2 ^ 1023" by (simp only:)
  ultimately have "nonneg_upto (C + B + real (length xs) * B)
      (fold (\<lambda>x s. fl_add s x) xs (fl_add s x))"
    using xs Cons.prems(3) by (intro Cons.IH)
  then show ?case by (simp only: e fold_simps)
qed

lemma np_mean_nonneg_upto:
  assumes "list_all (nonneg_upto B) xs" and "xs \<noteq> []" and "0 \<le> B"
    and "real (length xs) * B < 2 ^ 1023"
  shows "nonneg_upto (real (length xs) * B) (np_mean xs)"
proof -
  have "nonneg_upto (0 + real (length xs) * B) (fold (\<lambda>x s. fl_add s x) xs (Fin 0))"
    using assms(1) _ assms(3) by (rule fold_add_nonneg_upto) (use assms(4) in simp_all)
  then have "nonneg_upto (real (length xs) * B) (fold (\<lambda>x s. fl_add s x) xs (Fin 0))" by simp
  moreover from assms(2) have "1 \<le> length xs" by (cases xs) simp_all
  ultimately show ?thesis unfolding np_mean_def using assms(4) by (rule fl_div_count_nonneg_upto)
qed

lemma exp_le_two_power:
  assumes "x \<le> real n"
  shows "exp x \<le> 2 ^ (2 * n)"
proof -
  have "exp x \<le> exp (real n)" using assms by simp
  also have "\<dots> = exp 1 ^ n" using exp_of_nat_mult [of n "1::real"] by simp
  also have "\<dots> \<le> 3 ^ n" using exp_le by (intro power_mono) simp_all
  also have "\<dots> \<le> (4::real) ^ n" by (intro power_mono) simp_all
  also have "\<dots> = (2 ^ 2) ^ n" by simp
  also have "\<dots> = 2 ^ (2 * n)" by (simp only: power_mult)
  finally show ?thesis .
qed

lemma list_all_map2:
  assumes "list_all P xs" and "list_all Q ys" and "\<And>x y. P x \<Longrightarrow> Q y \<Longrightarrow> R (f x y)"
  shows "list_all R (map2 f xs ys)"
proof -
  have "R (f a b)" if "(a, b) \<in> set (zip xs ys)" for a b
  proof -
    from that have "a \<in> set xs" "b \<in> set ys" by (auto dest: set_zip_leftD set_zip_rightD)
    with assms(1,2) have "P a" "Q b" by (simp_all add: list_all_iff)
    then show ?thesis by (rule assms(3))
  qed
  then show ?thesis by (auto simp: list_all_iff)
qed

lemma growth_factor_bound:
  assumes c1: "nonneg_upto G1 c1" and c2: "finite_upto C2 c2" and z: "\<bar>zz\<bar> \<le> Z"
    and e: "exp (C2 * Z) < 2 ^ 1023" and g: "G1 * exp (C2 * Z) < 2 ^ 1023"
  shows "nonneg_upto (G1 * exp (C2 * Z)) (fl_mul c1 (np_exp (fl_mul c2 (Fin zz))))"
proof -
  have "C2 * Z \<le> 1 + C2 * Z" by simp
  also have "\<dots> \<le> exp (C2 * Z)" by (rule exp_ge_add_one_self)
  finally have "C2 * Z < 2 ^ 1023" using e by linarith
  moreover from z have "finite_upto Z (Fin zz)" by simp
  ultimately have "finite_upto (C2 * Z) (fl_mul c2 (Fin zz))"
    using c2 by (intro fl_mul_finite_upto)
  then have "nonneg_upto (exp (C2 * Z)) (np_exp (fl_mul c2 (Fin zz)))"
    using e by (rule np_exp_nonneg_upto)
  with c1 show ?thesis using g by (rule fl_mul_nonneg_upto)
qed

lemma day_loop_bound:
  assumes c1: "nonneg_upto G1 c1" and c2: "finite_upto C2 c2"
    and z: "\<forall>j<d. \<forall>p<n. \<bar>z j p\<bar> \<le> Z"
    and e: "exp (C2 * Z) < 2 ^ 1023" and G: "G = G1 * exp (C2 * Z)" and G1: "1 \<le> G"
    and Glt: "G < 2 ^ 1023"
    and A: "0 \<le> A" and M: "A * G ^ d \<le> M" and dM: "real d * M < 2 ^ 1023"
  shows "j + k \<le> d \<Longrightarrow> list_all (finite_upto (A * G ^ j)) sp \<Longrightarrow>
     list_all (finite_upto (real j * M)) sm \<Longrightarrow> length sp = n \<Longrightarrow> length sm = n \<Longrightarrow>
     (case day_loop z c1 c2 n j k (sp, sm) of (sp', sm') \<Rightarrow>
        list_all (finite_upto (A * G ^ (j + k))) sp' \<and>
        list_all (finite_upto (real (j + k) * M)) sm' \<and> length sp' = n \<and> length sm' = n)"
proof (induction k arbitrary: j sp sm)
  case 0
  then show ?case by simp
next
  case (Suc k)
  let ?gf = "map (\<lambda>p. fl_mul c1 (np_exp (fl_mul c2 (Fin (z j p))))) [0..<n]"
  let ?sp = "map2 fl_mul sp ?gf"
  let ?sm = "map2 fl_add sm ?sp"
  from Suc.prems(1) have jd: "j < d" "Suc j \<le> d" by simp_all
  from A G1 have "0 \<le> A * G ^ d" by simp
  with M have Mpos: "0 \<le> M" by linarith
  have pw: "A * G ^ Suc j \<le> M"
  proof -
    from jd G1 have "G ^ Suc j \<le> G ^ d" by (intro power_increasing)
    with A have "A * G ^ Suc j \<le> A * G ^ d" by (intro mult_left_mono)
    with M show ?thesis by linarith
  qed
  have sM: "real (Suc j) * M < 2 ^ 1023"
  proof -
    from jd have "real (Suc j) \<le> real d" by simp
    with Mpos have "real (Suc j) * M \<le> real d * M" by (intro mult_right_mono)
    with dM show ?thesis by linarith
  qed
  have "0 \<le> real j * M" using Mpos by simp
  moreover have "real (Suc j) * M = real j * M + M" by (simp add: algebra_simps)
  ultimately have Mlt: "M < 2 ^ 1023" using sM by linarith
  have gf: "list_all (nonneg_upto G) ?gf"
    unfolding list_all_iff G
  proof
    fix g assume "g \<in> set ?gf"
    then obtain p where p: "p < n" and g: "g = fl_mul c1 (np_exp (fl_mul c2 (Fin (z j p))))"
      by auto
    from z jd p have "\<bar>z j p\<bar> \<le> Z" by simp
    with c1 c2 show "nonneg_upto (G1 * exp (C2 * Z)) g"
      unfolding g using e Glt [unfolded G] by (rule growth_factor_bound)
  qed
  have sp: "list_all (finite_upto (A * G ^ Suc j)) ?sp"
    using Suc.prems(2) gf
  proof (rule list_all_map2)
    fix x y assume x: "finite_upto (A * G ^ j) x" and y: "nonneg_upto G y"
    from y have "finite_upto G y" by (rule nonneg_upto_finite_upto)
    moreover have eq: "A * G ^ j * G = A * G ^ Suc j" by simp
    moreover from pw Mlt have "A * G ^ Suc j < 2 ^ 1023" by linarith
    ultimately have "finite_upto (A * G ^ j * G) (fl_mul x y)"
      using x by (intro fl_mul_finite_upto) (simp_all only: eq)
    then show "finite_upto (A * G ^ Suc j) (fl_mul x y)" by (simp only: eq)
  qed
  have sm: "list_all (finite_upto (real (Suc j) * M)) ?sm"
    using Suc.prems(3) sp
  proof (rule list_all_map2)
    fix x y assume x: "finite_upto (real j * M) x" and y: "finite_upto (A * G ^ Suc j) y"
    have le: "real j * M + A * G ^ Suc j \<le> real (Suc j) * M"
      using pw by (simp add: algebra_simps)
    with sM have "real j * M + A * G ^ Suc j < 2 ^ 1023" by linarith
    with x y have "finite_upto (real j * M + A * G ^ Suc j) (fl_add x y)"
      by (rule fl_add_finite_upto)
    then show "finite_upto (real (Suc j) * M) (fl_add x y)" using le by (rule finite_upto_mono)
  qed
  have len: "length ?sp = n" "length ?sm = n" using Suc.prems(4,5) by simp_all
  from Suc.prems(1) have "Suc j + k \<le> d" by simp
  from Suc.IH [OF this sp sm len] show ?case by (simp add: Let_def)
qed

lemma one_over_pos:
  assumes "1 \<le> n" and "n \<le> 2 ^ 20"
  shows "one_over n = Inr (Fin (1 / real_of_int n))"
proof -
  from assms(1) have "real_of_int 1 \<le> real_of_int n" by (simp only: of_int_le_iff)
  then have ge: "1 \<le> real_of_int n" by simp
  from assms(2) have "real_of_int n \<le> real_of_int (2 ^ 20)" by (simp only: of_int_le_iff)
  then have le: "real_of_int n \<le> 2 ^ 20" by simp
  have "(2::real) ^ 20 < 2 ^ 1023" by (rule power_strict_increasing) simp_all
  with le overflow_threshold_ge have lt: "real_of_int n < overflow_threshold" by linarith
  from ge overflow_threshold_pos have "\<not> real_of_int n \<le> - overflow_threshold" by linarith
  with lt have "rnd (real_of_int n) \<noteq> PInf \<and> rnd (real_of_int n) \<noteq> NInf"
    by (simp add: rnd_def)
  then obtain d where "int_to_float n = Inr d" by (simp add: int_to_float_def)
  moreover from assms(1) have "n \<noteq> 0" by simp
  ultimately obtain h where "one_over n = Inr h" by (simp add: one_over_def)
  with one_over_Inr [OF this] show ?thesis by simp
qed

lemma price_option_eq:
  assumes "one_over ndays = Inr h" and "py_square sigma = Inr sigma2"
    and "math_exp (fl_mul (fl_sub r (fl_mul (Fin (1/2)) sigma2)) h) = Inr const1"
    and "math_sqrt h = Inr root_h"
    and "np_ones m npaths = Inr ones" and "np_zeros m npaths = Inr zeros"
    and "py_range m ndays = Inr n_days"
    and "day_loop z const1 (fl_mul sigma root_h) (nat npaths) 0 n_days
           (map (fl_mul S) ones, zeros) = (sp, sm)"
    and "math_exp (fl_mul (fl_mul (fl_neg r) h) (Fin (real_of_int ndays))) = Inr r_factor"
  shows "price_option m z S K sigma r ndays npaths =
     Inr (fl_mul r_factor (np_mean (map2 np_maximum zeros (map (\<lambda>x. fl_sub x K) sp))),
          fl_mul r_factor (np_mean (map2 np_maximum zeros (map (\<lambda>x. fl_sub K x) sp))),
          fl_mul r_factor (np_mean (map2 np_maximum zeros
            (map (\<lambda>x. fl_sub x K) (map (\<lambda>x. fl_div_count x (nat ndays)) sm)))),
          fl_mul r_factor (np_mean (map2 np_maximum zeros
            (map (\<lambda>x. fl_sub K x) (map (\<lambda>x. fl_div_count x (nat ndays)) sm)))))"
  unfolding price_option_def assms sum.case Let_def prod.case ..

lemma payoff_in_range:
  assumes rf: "nonneg_upto (2 ^ 200) rf" and ys: "list_all (finite_upto (2 ^ 321)) ys"
    and len: "length ys = n" and n: "1 \<le> n" "real n \<le> 2 ^ 40"
  shows "\<exists>a. fl_mul rf (np_mean (map2 np_maximum (replicate n (Fin 0)) ys)) = Fin a \<and> 0 \<le> a"
proof -
  let ?xs = "map2 np_maximum (replicate n (Fin 0)) ys"
  have "list_all (\<lambda>x. x = Fin 0) (replicate n (Fin 0))" by (simp add: list_all_iff)
  then have xs: "list_all (nonneg_upto (2 ^ 321)) ?xs" using ys
    by (rule list_all_map2) (simp only: np_maximum_nonneg_upto)
  from len n have l: "length ?xs = n" and ne: "?xs \<noteq> []" by auto
  have "real n * 2 ^ 321 \<le> 2 ^ 40 * 2 ^ 321" using n(2) by (intro mult_right_mono) simp_all
  also have "\<dots> = (2::real) ^ 361" by (simp only: power_add [symmetric]) simp
  finally have b: "real n * 2 ^ 321 \<le> 2 ^ 361" .
  have "(2::real) ^ 361 < 2 ^ 1023" by (rule power_strict_increasing) simp_all
  with b have "real (length ?xs) * 2 ^ 321 < 2 ^ 1023" unfolding l by linarith
  with xs ne have "nonneg_upto (real (length ?xs) * 2 ^ 321) (np_mean ?xs)"
    by (intro np_mean_nonneg_upto) simp_all
  then have "nonneg_upto (2 ^ 361) (np_mean ?xs)" unfolding l using b by (rule nonneg_upto_mono)
  moreover have "(2::real) ^ 200 * 2 ^ 361 < 2 ^ 1023"
    by (simp only: power_add [symmetric]) (rule power_strict_increasing, simp_all)
  ultimately have "nonneg_upto (2 ^ 200 * 2 ^ 361) (fl_mul rf (np_mean ?xs))"
    using rf by (intro fl_mul_nonneg_upto)
  then show ?thesis by (auto elim: nonneg_uptoE)
qed

lemma strike_minus_price:
  assumes "list_all (finite_upto (2 ^ 320)) xs" and "\<bar>k\<bar> \<le> 2 ^ 100"
  shows "list_all (finite_upto (2 ^ 321)) (map (\<lambda>x. fl_sub (Fin k) x) xs)"
    and "list_all (finite_upto (2 ^ 321)) (map (\<lambda>x. fl_sub x (Fin k)) xs)"
proof -
  have le: "(2::real) ^ 100 + 2 ^ 320 \<le> 2 ^ 321" "(2::real) ^ 320 + 2 ^ 100 \<le> 2 ^ 321" by simp_all
  have lt: "(2::real) ^ 321 < 2 ^ 1023" by (rule power_strict_increasing) simp_all
  have "finite_upto (2 ^ 321) (fl_sub (Fin k) x) \<and> finite_upto (2 ^ 321) (fl_sub x (Fin k))"
    if "finite_upto (2 ^ 320) x" for x
  proof -
    from assms(2) have k: "finite_upto (2 ^ 100) (Fin k)" by simp
    from le lt have "(2::real) ^ 100 + 2 ^ 320 < 2 ^ 1023" "(2::real) ^ 320 + 2 ^ 100 < 2 ^ 1023"
      by linarith+
    with k that have "finite_upto (2 ^ 100 + 2 ^ 320) (fl_sub (Fin k) x)"
      "finite_upto (2 ^ 320 + 2 ^ 100) (fl_sub x (Fin k))"
      by (simp_all only: fl_sub_finite_upto)
    with le show ?thesis by (blast intro: finite_upto_mono)
  qed
  with assms(1) show "list_all (finite_upto (2 ^ 321)) (map (\<lambda>x. fl_sub (Fin k) x) xs)"
    "list_all (finite_upto (2 ^ 321)) (map (\<lambda>x. fl_sub x (Fin k)) xs)"
    by (simp_all add: list_all_iff)
qed

lemma exp_100_lt: "exp (100::real) \<le> 2 ^ 200" "(2::real) ^ 200 < 2 ^ 1023"
proof -
  show "exp (100::real) \<le> 2 ^ 200" using exp_le_two_power [of 100 100] by simp
  show "(2::real) ^ 200 < 2 ^ 1023" by (rule power_strict_increasing) simp_all
qed

lemma price_option_in_range:
  assumes d: "1 \<le> ndays" "ndays \<le> 2 ^ 20" "ndays \<le> int (max_range m)"
      "ndays \<le> int (mem_range m)"
    and p: "1 \<le> npaths" "npaths \<le> 2 ^ 40" "npaths \<le> int (max_items m)"
      "npaths \<le> int (mem_items m)"
    and s0: "\<bar>s0\<bar> \<le> 2 ^ 100" and k: "\<bar>k\<bar> \<le> 2 ^ 100"
    and z: "\<forall>j<nat ndays. \<forall>p<nat npaths. \<bar>z j p\<bar> \<le> Z"
    and L: "\<bar>rt\<bar> + sg\<^sup>2 / 2 + \<bar>sg\<bar> * Z * sqrt (real_of_int ndays) \<le> 100"
  shows "\<exists>a b c d. price_option m z (Fin s0) (Fin k) (Fin sg) (Fin rt) ndays npaths
            = Inr (Fin a, Fin b, Fin c, Fin d) \<and> 0 \<le> a \<and> 0 \<le> b \<and> 0 \<le> c \<and> 0 \<le> d"
proof -
  define D where "D = real_of_int ndays"
  define dn where "dn = nat ndays"
  define n where "n = nat npaths"
  define al where "al = (\<bar>rt\<bar> + 1/2 * (sg * sg)) * (1 / D)"
  define C2 where "C2 = \<bar>sg\<bar> * sqrt (1 / D)"
  define G where "G = exp al * exp (C2 * Z)"
  from d(1) have "real_of_int 1 \<le> real_of_int ndays" by (simp only: of_int_le_iff)
  then have D1: "1 \<le> D" by (simp add: D_def)
  from d(1) have dn: "real dn = D" "1 \<le> dn" by (simp_all add: dn_def D_def)
  from d(2) have "real_of_int ndays \<le> real_of_int (2 ^ 20)" by (simp only: of_int_le_iff)
  then have D20: "D \<le> 2 ^ 20" by (simp add: D_def)
  from p(1) have n1: "1 \<le> n" by (simp add: n_def)
  from p(1,2) have "int n \<le> 2 ^ 40" by (simp add: n_def)
  then have "real_of_int (int n) \<le> real_of_int (2 ^ 40)" by (simp only: of_int_le_iff)
  then have n40: "real n \<le> 2 ^ 40" by simp
  from z d(1) p(1) have "\<bar>z 0 0\<bar> \<le> Z" by simp
  then have Z0: "0 \<le> Z" by linarith
  have inv1: "0 \<le> 1 / D" "1 / D \<le> 1" using D1 by simp_all
  have sq: "0 \<le> sqrt (1 / D)" "sqrt (1 / D) \<le> 1" using inv1 by simp_all
  have Dsq: "D * sqrt (1 / D) = sqrt D"
    using D1 real_div_sqrt [of D] by (simp add: real_sqrt_divide)
  have al0: "0 \<le> al" unfolding al_def using inv1 by simp
  have C20: "0 \<le> C2" unfolding C2_def using sq by simp
  have g0: "0 \<le> C2 * Z" using C20 Z0 by simp
  have "D * (al + C2 * Z) = (\<bar>rt\<bar> + 1/2 * (sg * sg)) * (D * (1 / D)) + \<bar>sg\<bar> * Z * (D * sqrt (1 / D))"
    unfolding al_def C2_def by (simp only: algebra_simps)
  also have "\<dots> = \<bar>rt\<bar> + sg\<^sup>2 / 2 + \<bar>sg\<bar> * Z * sqrt D"
    using D1 by (simp add: Dsq power2_eq_square)
  finally have DL: "D * (al + C2 * Z) \<le> 100" using L by (simp add: D_def)
  have "1 * (al + C2 * Z) \<le> D * (al + C2 * Z)"
    using D1 al0 g0 by (intro mult_right_mono) simp_all
  with DL have ag: "al + C2 * Z \<le> 100" by simp
  with al0 g0 have al100: "al \<le> 100" and g100: "C2 * Z \<le> 100" by linarith+
  have "0 \<le> sqrt D" using D1 by simp
  then have "0 \<le> \<bar>sg\<bar> * Z * sqrt (real_of_int ndays)"
    unfolding D_def using Z0 by (intro mult_nonneg_nonneg) simp_all
  with L have rs: "\<bar>rt\<bar> + sg\<^sup>2 / 2 \<le> 100" by linarith
  then have "\<bar>rt\<bar> + sg * sg / 2 \<le> 100" by (simp only: power2_eq_square)
  moreover have "0 \<le> sg * sg" by simp
  ultimately have rt100: "\<bar>rt\<bar> \<le> 100" and sg200: "sg * sg \<le> 200" by linarith+
  note e1 = exp_100_lt
  have exp_lt: "exp x < 2 ^ 1023" if "x \<le> 100" for x :: real
  proof -
    from that have "exp x \<le> exp 100" by simp
    with e1 show ?thesis by linarith
  qed
  have h: "one_over ndays = Inr (Fin (1 / D))" unfolding D_def using d(1,2) by (rule one_over_pos)
  have rg: "py_range m ndays = Inr dn" unfolding dn_def using d(3,4) by (rule py_range_Inr)
  have hb: "finite_upto (1 / D) (Fin (1 / D))" using inv1 by simp
  have "(200::real) < 2 ^ 1023" by simp
  with sg200 obtain sigma2 where s2: "py_square (Fin sg) = Inr sigma2"
    and s2b: "nonneg_upto 200 sigma2"
    using py_square_nonneg_upto [of sg 200] by blast
  have "sg * sg \<le> sg * sg" by simp
  moreover have "sg * sg < 2 ^ 1023" using sg200 by simp
  ultimately obtain y where "py_square (Fin sg) = Inr y" and "nonneg_upto (sg * sg) y"
    using py_square_nonneg_upto [of sg "sg * sg"] by blast
  with s2 have s2c: "nonneg_upto (sg * sg) sigma2" by simp
  have "nonneg_upto (1/2) (Fin (1/2))" by simp
  then have t1: "nonneg_upto (1/2 * (sg * sg)) (fl_mul (Fin (1/2)) sigma2)"
    using s2c by (rule fl_mul_nonneg_upto) (use sg200 in simp)
  have "finite_upto \<bar>rt\<bar> (Fin rt)" by simp
  then have t2: "finite_upto (\<bar>rt\<bar> + 1/2 * (sg * sg)) (fl_sub (Fin rt) (fl_mul (Fin (1/2)) sigma2))"
    using nonneg_upto_finite_upto [OF t1]
    by (rule fl_sub_finite_upto) (use rt100 sg200 in simp)
  have t3: "finite_upto al (fl_mul (fl_sub (Fin rt) (fl_mul (Fin (1/2)) sigma2)) (Fin (1 / D)))"
    unfolding al_def using t2 hb
    by (rule fl_mul_finite_upto) (use al100 in \<open>simp add: al_def\<close>)
  from t3 exp_lt [OF al100] obtain c1 where
    c1: "math_exp (fl_mul (fl_sub (Fin rt) (fl_mul (Fin (1/2)) sigma2)) (Fin (1 / D))) = Inr c1"
    and c1b: "nonneg_upto (exp al) c1"
    using math_exp_nonneg_upto by blast
  have rh: "math_sqrt (Fin (1 / D)) = Inr (Fin (sqrt (1 / D)))" using inv1 by simp
  have "\<bar>sg\<bar> * sqrt (1 / D) \<le> \<bar>sg\<bar> * 1" using sq by (intro mult_left_mono) simp_all
  moreover have "\<bar>sg\<bar> \<le> 1 + sg * sg"
  proof (cases "\<bar>sg\<bar> \<le> 1")
    case True
    moreover have "0 \<le> sg * sg" by simp
    ultimately show ?thesis by linarith
  next
    case False
    then have "\<bar>sg\<bar> * 1 \<le> \<bar>sg\<bar> * \<bar>sg\<bar>" by (intro mult_left_mono) simp_all
    then show ?thesis by (simp add: abs_mult_self_eq)
  qed
  ultimately have "C2 \<le> 201" unfolding C2_def using sg200 by linarith
  then have C2lt: "C2 < 2 ^ 1023" by simp
  have "finite_upto \<bar>sg\<bar> (Fin sg)" by simp
  moreover have "finite_upto (sqrt (1 / D)) (Fin (sqrt (1 / D)))" using sq by simp
  ultimately have c2b: "finite_upto C2 (fl_mul (Fin sg) (Fin (sqrt (1 / D))))"
    unfolding C2_def using C2lt [unfolded C2_def] by (rule fl_mul_finite_upto)
  from p have ones: "np_ones m npaths = Inr (replicate n (Fin 1))"
    and zeros: "np_zeros m npaths = Inr (replicate n (Fin 0))"
    unfolding n_def by (simp_all add: np_ones_Inr np_zeros_Inr)
  have G1: "1 \<le> G"
  proof -
    from al0 g0 have "0 \<le> al + C2 * Z" by simp
    then have "1 \<le> exp (al + C2 * Z)" by simp
    then show ?thesis by (simp only: G_def exp_add)
  qed
  have Geq: "G = exp (al + C2 * Z)" by (simp only: G_def exp_add)
  have Glt: "G < 2 ^ 1023" unfolding Geq using ag by (rule exp_lt)
  have "G ^ dn = exp (real dn * (al + C2 * Z))" unfolding Geq by (rule exp_of_nat_mult [symmetric])
  also have "\<dots> \<le> exp 100" using DL by (simp add: dn)
  also have "\<dots> \<le> 2 ^ 200" by (rule e1)
  finally have Gd: "G ^ dn \<le> 2 ^ 200" .
  have "(2::real) ^ 100 * G ^ dn \<le> 2 ^ 100 * 2 ^ 200" using Gd by (intro mult_left_mono) simp_all
  also have "\<dots> = (2::real) ^ 300" by (simp only: power_add [symmetric]) simp
  finally have M: "2 ^ 100 * G ^ dn \<le> 2 ^ 300" .
  have "real dn * 2 ^ 300 \<le> 2 ^ 20 * 2 ^ 300" using D20 dn by (intro mult_right_mono) simp_all
  also have "\<dots> = (2::real) ^ 320" by (simp only: power_add [symmetric]) simp
  finally have dM320: "real dn * 2 ^ 300 \<le> 2 ^ 320" .
  have "(2::real) ^ 320 < 2 ^ 1023" by (rule power_strict_increasing) simp_all
  with dM320 have dM: "real dn * 2 ^ 300 < 2 ^ 1023" by linarith
  let ?sp0 = "map (fl_mul (Fin s0)) (replicate n (Fin 1))"
  have "finite_upto (2 ^ 100) (fl_mul (Fin s0) (Fin 1))"
  proof -
    have "(2::real) ^ 100 < 2 ^ 1023" by (rule power_strict_increasing) simp_all
    with s0 have "finite_upto (2 ^ 100) (rnd s0)" by (intro rnd_finite_upto)
    then show ?thesis by simp
  qed
  then have sp0: "list_all (finite_upto (2 ^ 100 * G ^ 0)) ?sp0" by (simp add: list_all_iff)
  have sm0: "list_all (finite_upto (real 0 * 2 ^ 300)) (replicate n (Fin 0))"
    by (simp add: list_all_iff)
  obtain sp sm where dl: "day_loop z c1 (fl_mul (Fin sg) (Fin (sqrt (1 / D)))) n 0 dn
      (?sp0, replicate n (Fin 0)) = (sp, sm)"
    by (cases "day_loop z c1 (fl_mul (Fin sg) (Fin (sqrt (1 / D)))) n 0 dn
      (?sp0, replicate n (Fin 0))") blast
  have "case day_loop z c1 (fl_mul (Fin sg) (Fin (sqrt (1 / D)))) n 0 dn
      (?sp0, replicate n (Fin 0)) of (sp', sm') \<Rightarrow>
        list_all (finite_upto (2 ^ 100 * G ^ (0 + dn))) sp' \<and>
        list_all (finite_upto (real (0 + dn) * 2 ^ 300)) sm' \<and> length sp' = n \<and> length sm' = n"
    using c1b c2b z [folded dn_def n_def] exp_lt [OF g100] G_def G1 Glt _ M dM _ sp0 sm0
    by (rule day_loop_bound) simp_all
  then have spb: "list_all (finite_upto (2 ^ 100 * G ^ dn)) sp"
    and smb: "list_all (finite_upto (real dn * 2 ^ 300)) sm"
    and len: "length sp = n" "length sm = n"
    unfolding dl by simp_all
  have "(2::real) ^ 300 \<le> 2 ^ 320" by (rule power_increasing) simp_all
  with M have "2 ^ 100 * G ^ dn \<le> 2 ^ 320" by linarith
  with spb have sp320: "list_all (finite_upto (2 ^ 320)) sp"
    by (auto simp: list_all_iff intro: finite_upto_mono)
  from smb dM320 have sm320: "list_all (finite_upto (2 ^ 320)) sm"
    by (auto simp: list_all_iff intro: finite_upto_mono)
  let ?avg = "map (\<lambda>x. fl_div_count x dn) sm"
  have avg320: "list_all (finite_upto (2 ^ 320)) ?avg"
    using sm320 dn(2) \<open>(2::real) ^ 320 < 2 ^ 1023\<close>
    by (auto simp: list_all_iff intro: fl_div_count_finite_upto)
  have "finite_upto \<bar>rt\<bar> (fl_neg (Fin rt))" by simp
  then have q1: "finite_upto (\<bar>rt\<bar> * (1 / D)) (fl_mul (fl_neg (Fin rt)) (Fin (1 / D)))"
    using hb
  proof (rule fl_mul_finite_upto)
    have "\<bar>rt\<bar> * (1 / D) \<le> \<bar>rt\<bar> * 1" using inv1 by (intro mult_left_mono) simp_all
    with rt100 show "\<bar>rt\<bar> * (1 / D) < 2 ^ 1023" by simp
  qed
  have q2: "finite_upto D (Fin D)" using D1 by simp
  have rD: "\<bar>rt\<bar> * (1 / D) * D = \<bar>rt\<bar>" using D1 by simp
  from rt100 have q3: "\<bar>rt\<bar> * (1 / D) * D < 2 ^ 1023" by (simp only: rD) simp
  have "finite_upto (\<bar>rt\<bar> * (1 / D) * D)
      (fl_mul (fl_mul (fl_neg (Fin rt)) (Fin (1 / D))) (Fin D))"
    using q1 q2 q3 by (rule fl_mul_finite_upto)
  then have "finite_upto 100 (fl_mul (fl_mul (fl_neg (Fin rt)) (Fin (1 / D))) (Fin D))"
    unfolding rD using rt100 by (rule finite_upto_mono)
  with exp_lt [of 100] obtain rf where
    rf: "math_exp (fl_mul (fl_mul (fl_neg (Fin rt)) (Fin (1 / D))) (Fin D)) = Inr rf"
    and "nonneg_upto (exp 100) rf"
    using math_exp_nonneg_upto [of 100] by auto
  then have rfb: "nonneg_upto (2 ^ 200) rf" using e1(1) by (blast intro: nonneg_upto_mono)
  note u = D_def n_def dn_def
  note eq = price_option_eq [OF h [unfolded u] s2 c1 [unfolded u] rh [unfolded u]
      ones [unfolded u] zeros [unfolded u] rg [unfolded u] dl [unfolded u] rf [unfolded u],
      of "Fin k",
      folded dn_def n_def]
  note P = payoff_in_range [OF rfb _ _ n1 n40]
  from P [OF strike_minus_price(2) [OF sp320 k]] len obtain a where
    a: "fl_mul rf (np_mean (map2 np_maximum (replicate n (Fin 0))
          (map (\<lambda>x. fl_sub x (Fin k)) sp))) = Fin a" "0 \<le> a" by auto
  from P [OF strike_minus_price(1) [OF sp320 k]] len obtain b where
    b: "fl_mul rf (np_mean (map2 np_maximum (replicate n (Fin 0))
          (map (\<lambda>x. fl_sub (Fin k) x) sp))) = Fin b" "0 \<le> b" by auto
  from P [OF strike_minus_price(2) [OF avg320 k]] len obtain c where
    c: "fl_mul rf (np_mean (map2 np_maximum (replicate n (Fin 0))
          (map (\<lambda>x. fl_sub x (Fin k)) ?avg))) = Fin c" "0 \<le> c" by auto
  from P [OF strike_minus_price(1) [OF avg320 k]] len obtain d' where
    d': "fl_mul rf (np_mean (map2 np_maximum (replicate n (Fin 0))
          (map (\<lambda>x. fl_sub (Fin k) x) ?avg))) = Fin d'" "0 \<le> d'" by auto
  from eq a b c d' show ?thesis by (simp only:) blast
qed

text \<open>
  C4, as stated, fails: with the volatility \<^verbatim>\<open>sigma = 1e4\<close> (and \<^verbatim>\<open>S = K = 100.0\<close>,
  \<^verbatim>\<open>r = 0.05\<close>, one day, one path whose draw is 1.0), \<^verbatim>\<open>const1\<close> underflows to 0.0,
  \<^verbatim>\<open>np.exp\<close> overflows to \<^verbatim>\<open>inf\<close>, and \<^verbatim>\<open>0.0*inf\<close> is NaN: the four prices returned are
  NaN, which is not non-negative.
\<close>

theorem huge_volatility_gives_nan:
  "price_option machine64 (\<lambda>j p. 1) (Fin 100) (Fin 100) (Fin 10000) (Fin (1/20)) 1 1
     = Inr (NaN, NaN, NaN, NaN) \<and> \<not> non_negative NaN"
proof -
  have h: "one_over 1 = Inr (Fin 1)"
    by (simp add: one_over_def int_to_float_def)
  have r1: "rnd (- (999999999/20)) = Fin (- (999999999/20))" by (rule rnd_normal) simp_all
  have r2: "rnd (exp (- (999999999/20))) = Fin 0" by (rule rnd_exp_underflow) simp
  have r3: "rnd (exp 10000) = PInf" by (rule rnd_exp_overflow) simp
  have r4: "rnd (- (1/20)) = Fin (- (1/20))" by (rule rnd_normal) simp_all
  have r5: "rnd (exp (- (1/20))) = Fin (exp (- (1/20)))" by (rule rnd_exp_small) simp_all
  have d: "day_loop (\<lambda>j p. 1) (Fin 0) (Fin 10000) (Suc 0) 0 (Suc 0) ([Fin 100], [Fin 0])
      = ([NaN], [NaN])"
    by (simp add: r3 Let_def)
  have "price_option machine64 (\<lambda>j p. 1) (Fin 100) (Fin 100) (Fin 10000) (Fin (1/20)) 1 1
     = Inr (NaN, NaN, NaN, NaN)"
    by (simp add: price_option_def h fl_sub_def r1 r2 r3 r4 r5 np_ones_def np_zeros_def
        py_range_def d np_mean_def Let_def)
  then show ?thesis by (simp add: non_negative_def)
qed

text \<open>
  C4, amended. \<^verbatim>\<open>price_option\<close> is a function of
  \<open>(spot, strike, volatility, rate, days, path_count)\<close> and its random draws that returns a
  4-tuple \<open>(european_call, european_put, asian_call, asian_put)\<close>. No price it returns is
  negative: on every input on which it returns, each of the four is non-negative
  (possibly infinite) or NaN. On the inputs of the following range it does return, and
  each of the four prices is a finite number that is non-negative: \<open>1 \<le> days \<le> 2 ^ 20\<close> and
  \<open>1 \<le> paths \<le> 2 ^ 40\<close>, both within what the machine can allocate, a spot and a strike of
  magnitude at most \<open>2 ^ 100\<close>, and a volatility \<open>\<sigma>\<close> and a rate \<open>r\<close> with
  \<open>\<bar>r\<bar> + \<sigma>\<^sup>2/2 + \<bar>\<sigma>\<bar> Z \<surd>days \<le> 100\<close>, where \<open>Z\<close> bounds the magnitude of the draws. The
  notebook's own parameters (\<^verbatim>\<open>days = 260\<close>, \<^verbatim>\<open>paths = 10000\<close>, \<^verbatim>\<open>price = 100.0\<close>, strikes from
  90 to 110, volatilities from 0.1 to 0.4, \<^verbatim>\<open>rate = 0.05\<close>) lie in this range for draws of
  magnitude up to 15.
\<close>

theorem prices_non_negative_in_range:
  "(price_option m z S K sigma r ndays npaths = Inr (euro_call, euro_put, asian_call, asian_put) \<longrightarrow>
      ge_zero_or_nan euro_call \<and> ge_zero_or_nan euro_put \<and>
      ge_zero_or_nan asian_call \<and> ge_zero_or_nan asian_put)
   \<and> (1 \<le> ndays \<and> ndays \<le> 2 ^ 20 \<and> ndays \<le> int (max_range m) \<and> ndays \<le> int (mem_range m) \<and>
      1 \<le> npaths \<and> npaths \<le> 2 ^ 40 \<and> npaths \<le> int (max_items m) \<and> npaths \<le> int (mem_items m) \<and>
      \<bar>s0\<bar> \<le> 2 ^ 100 \<and> \<bar>k\<bar> \<le> 2 ^ 100 \<and>
      (\<forall>j<nat ndays. \<forall>p<nat npaths. \<bar>z j p\<bar> \<le> Z) \<and>
      \<bar>rt\<bar> + sg\<^sup>2 / 2 + \<bar>sg\<bar> * Z * sqrt (real_of_int ndays) \<le> 100 \<longrightarrow>
      (\<exists>a b c d. price_option m z (Fin s0) (Fin k) (Fin sg) (Fin rt) ndays npaths
           = Inr (Fin a, Fin b, Fin c, Fin d) \<and>
         non_negative (Fin a) \<and> non_negative (Fin b) \<and>
         non_negative (Fin c) \<and> non_negative (Fin d)))"
proof (intro conjI impI)
  assume "price_option m z S K sigma r ndays npaths
    = Inr (euro_call, euro_put, asian_call, asian_put)"
  then have "ge_zero_or_nan euro_call \<and> ge_zero_or_nan euro_put \<and>
      ge_zero_or_nan asian_call \<and> ge_zero_or_nan asian_put"
    by (auto simp: price_option_def np_zeros_def Let_def payoff_ok
        split: sum.splits prod.splits if_splits)
  then show "ge_zero_or_nan euro_call" "ge_zero_or_nan euro_put"
    "ge_zero_or_nan asian_call" "ge_zero_or_nan asian_put" by simp_all
next
  assume a: "1 \<le> ndays \<and> ndays \<le> 2 ^ 20 \<and> ndays \<le> int (max_range m) \<and> ndays \<le> int (mem_range m) \<and>
      1 \<le> npaths \<and> npaths \<le> 2 ^ 40 \<and> npaths \<le> int (max_items m) \<and> npaths \<le> int (mem_items m) \<and>
      \<bar>s0\<bar> \<le> 2 ^ 100 \<and> \<bar>k\<bar> \<le> 2 ^ 100 \<and>
      (\<forall>j<nat ndays. \<forall>p<nat npaths. \<bar>z j p\<bar> \<le> Z) \<and>
      \<bar>rt\<bar> + sg\<^sup>2 / 2 + \<bar>sg\<bar> * Z * sqrt (real_of_int ndays) \<le> 100"
  have "\<exists>a b c d. price_option m z (Fin s0) (Fin k) (Fin sg) (Fin rt) ndays npaths
            = Inr (Fin a, Fin b, Fin c, Fin d) \<and> 0 \<le> a \<and> 0 \<le> b \<and> 0 \<le> c \<and> 0 \<le> d"
    by (rule price_option_in_range) (use a in blast)+
  then show "\<exists>a b c d. price_option m z (Fin s0) (Fin k) (Fin sg) (Fin rt) ndays npaths
           = Inr (Fin a, Fin b, Fin c, Fin d) \<and>
         non_negative (Fin a) \<and> non_negative (Fin b) \<and>
         non_negative (Fin c) \<and> non_negative (Fin d)"
    by (simp add: non_negative_def)
qed

theorem prices_non_negative_in_range_witness:
  "\<exists>a b c d.
     price_option machine64 (\<lambda>j p. if even (j + p) then 15 else - 15)
       (Fin 100) (Fin 110) (Fin (2/5)) (Fin (1/20)) 260 10000
       = Inr (Fin a, Fin b, Fin c, Fin d) \<and>
     non_negative (Fin a) \<and> non_negative (Fin b) \<and> non_negative (Fin c) \<and> non_negative (Fin d) \<and>
     ge_zero_or_nan (Fin a) \<and> ge_zero_or_nan (Fin b) \<and> ge_zero_or_nan (Fin c) \<and>
     ge_zero_or_nan (Fin d)"
proof -
  let ?z = "\<lambda>j p :: nat. if even (j + p) then 15 else - 15 :: real"
  have "sqrt 260 \<le> sqrt ((33/2)\<^sup>2)" by (rule real_sqrt_le_mono) (simp add: power2_eq_square)
  then have sq: "sqrt 260 \<le> 33/2" by simp
  then have L: "\<bar>1/20\<bar> + (2/5)\<^sup>2 / 2 + \<bar>2/5\<bar> * 15 * sqrt (real_of_int 260) \<le> (100::real)"
    by (simp add: power2_eq_square)
  have "\<exists>a b c d. price_option machine64 ?z (Fin 100) (Fin 110) (Fin (2/5)) (Fin (1/20)) 260 10000
           = Inr (Fin a, Fin b, Fin c, Fin d) \<and>
         non_negative (Fin a) \<and> non_negative (Fin b) \<and>
         non_negative (Fin c) \<and> non_negative (Fin d)"
    using prices_non_negative_in_range [where m = machine64 and z = ?z and ndays = 260
        and npaths = 10000 and ?s0.0 = 100 and k = 110 and sg = "2/5" and rt = "1/20" and Z = 15,
        THEN conjunct2] L
    by simp
  then obtain a b c d where
    run: "price_option machine64 ?z (Fin 100) (Fin 110) (Fin (2/5)) (Fin (1/20)) 260 10000
           = Inr (Fin a, Fin b, Fin c, Fin d)"
    and nn: "non_negative (Fin a)" "non_negative (Fin b)" "non_negative (Fin c)"
      "non_negative (Fin d)"
    by blast
  from prices_non_negative_in_range [where m = machine64 and z = ?z and S = "Fin 100"
      and K = "Fin 110" and sigma = "Fin (2/5)" and r = "Fin (1/20)" and ndays = 260
      and npaths = 10000 and euro_call = "Fin a" and euro_put = "Fin b" and asian_call = "Fin c"
      and asian_put = "Fin d", THEN conjunct1] run
  have "ge_zero_or_nan (Fin a) \<and> ge_zero_or_nan (Fin b) \<and> ge_zero_or_nan (Fin c) \<and>
     ge_zero_or_nan (Fin d)"
    by blast
  with run nn show ?thesis by blast
qed

end
